theory Spec2Isabelle
  imports Main "HOL-Library.Char_ord" "HOL-Library.List_Lexorder"
begin

section \<open>file-list: a shallow embedding of \<open>file_list.c\<close>\<close>

text \<open>
  The library builds a hierarchically sorted list of the paths found below a directory.
  This theory embeds its string comparators, the path-aware \<open>qsort\<close> callbacks, the
  growable list, the directory traversal and the two public entry points, and proves
  properties of them.

  Conventions of the embedding.
  \<^item> A byte is a \<^typ>\<open>char\<close>; \<open>uc c\<close> is its value as \<open>unsigned char\<close> promoted to
    \<open>int\<close>. A C string in memory is a \<^typ>\<open>char list\<close> that holds the bytes from a
    pointer up to the end of its allocation, terminator included; \<open>c + 1\<close> is the tail,
    and reading the empty list is a read past the allocation.
  \<^item> Undefined behaviour is a value: every function that can run into it returns
    \<open>ub + 'a\<close>, with \<open>Inl\<close> naming the kind.
  \<^item> The operating system (directory reads, \<open>stat\<close>, the allocator, the regex engine
    and \<open>strcoll\<close>) is a record of functions handed to the code.
\<close>

subsection \<open>Bytes, \<open>ctype.h\<close> and undefined behaviour\<close>

datatype ub = NullDeref | OutOfBounds | Uninitialised

definition NUL :: char where
  "NUL = CHR 0x00"

definition DIR_SEPARATOR :: char where
  "DIR_SEPARATOR = CHR ''/''"

definition uc :: "char \<Rightarrow> int" where
  "uc c = of_char c"

text \<open>\<open>tolower\<close> and \<open>isdigit\<close> of the C library, in the "C" locale.\<close>

definition tolower :: "int \<Rightarrow> int" where
  "tolower c = (if 65 \<le> c \<and> c \<le> 90 then c + 32 else c)"

definition isdigit :: "int \<Rightarrow> bool" where
  "isdigit c = (48 \<le> c \<and> c \<le> 57)"

subsection \<open>String comparisons\<close>

text \<open>
  \<open>strcmp_default\<close> is a \<open>do ... while (*c1 && *c2)\<close> loop: \<open>strcmp_default_do\<close> runs the
  body at the current pointers, \<open>strcmp_default_while\<close> is the loop test after both
  pointers were advanced, followed by the code after the loop.
\<close>

fun strcmp_default_do :: "int \<Rightarrow> char list \<Rightarrow> char list \<Rightarrow> ub + int"
  and strcmp_default_while :: "int \<Rightarrow> char list \<Rightarrow> char list \<Rightarrow> ub + int" where
  "strcmp_default_do temp_ret (a # c1) (b # c2) =
     (if a \<noteq> b then
        (let lc1 = tolower (uc a); lc2 = tolower (uc b) in
         if lc1 = lc2
         then strcmp_default_while (if temp_ret = 0 then uc b - uc a else temp_ret) c1 c2
         else Inr (lc1 - lc2))
      else strcmp_default_while temp_ret c1 c2)"
| "strcmp_default_do temp_ret _ _ = Inl OutOfBounds"
| "strcmp_default_while temp_ret (a # c1) (b # c2) =
     (if a \<noteq> NUL \<and> b \<noteq> NUL then strcmp_default_do temp_ret (a # c1) (b # c2)
      else if a = b then Inr temp_ret
      else Inr (uc a - uc b))"
| "strcmp_default_while temp_ret _ _ = Inl OutOfBounds"

definition strcmp_default :: "char list \<Rightarrow> char list \<Rightarrow> ub + int" where
  "strcmp_default s1 s2 = strcmp_default_do 0 s1 s2"

text \<open>
  The digit branch of \<open>strcmp_natural\<close>. \<open>digit_run c\<close> is the run of digits at \<open>c\<close>
  (from \<open>z\<close> to the advanced \<open>c\<close>, both inclusive), \<open>after_digits c\<close> is the memory behind
  it, \<open>skip_zeroes\<close> moves \<open>p\<close> over leading zeroes but never past the last digit, and
  \<open>compare_digits\<close> is the \<open>for\<close> loop over two runs.
\<close>

definition digit_run :: "char list \<Rightarrow> char list" where
  "digit_run c = takeWhile (\<lambda>x. isdigit (uc x)) c"

definition after_digits :: "char list \<Rightarrow> char list" where
  "after_digits c = dropWhile (\<lambda>x. isdigit (uc x)) c"

fun skip_zeroes :: "char list \<Rightarrow> char list" where
  "skip_zeroes (x # y # p) = (if x = CHR ''0'' then skip_zeroes (y # p) else x # y # p)"
| "skip_zeroes p = p"

fun compare_digits :: "char list \<Rightarrow> char list \<Rightarrow> int option" where
  "compare_digits (x # p1) (y # p2) =
     (if x \<noteq> y then Some (uc x - uc y) else compare_digits p1 p2)"
| "compare_digits _ _ = None"

function strcmp_natural_do :: "int \<Rightarrow> char list \<Rightarrow> char list \<Rightarrow> ub + int"
  and strcmp_natural_while :: "int \<Rightarrow> char list \<Rightarrow> char list \<Rightarrow> ub + int" where
  "strcmp_natural_do temp_ret (a # c1) (b # c2) =
     (if isdigit (uc a) \<and> isdigit (uc b) then
        (if after_digits c1 = [] \<or> after_digits c2 = [] then Inl OutOfBounds
         else
           let z1 = digit_run (a # c1); z2 = digit_run (b # c2);
               p1 = skip_zeroes z1; p2 = skip_zeroes z2;
               len1 = int (length p1) - 1; len2 = int (length p2) - 1
           in if len1 \<noteq> len2 then Inr (len1 - len2)
              else
                (case compare_digits p1 p2 of
                   Some d \<Rightarrow> Inr d
                 | None \<Rightarrow>
                     let len1 = int (length z1) - 1; len2 = int (length z2) - 1
                     in if len1 \<noteq> len2 then Inr (len2 - len1)
                        else strcmp_natural_while temp_ret (after_digits c1) (after_digits c2)))
      else if a \<noteq> b then
        (let lc1 = tolower (uc a); lc2 = tolower (uc b) in
         if lc1 = lc2
         then strcmp_natural_while (if temp_ret = 0 then uc b - uc a else temp_ret) c1 c2
         else Inr (lc1 - lc2))
      else strcmp_natural_while temp_ret c1 c2)"
| "strcmp_natural_do temp_ret [] _ = Inl OutOfBounds"
| "strcmp_natural_do temp_ret (a # c1) [] = Inl OutOfBounds"
| "strcmp_natural_while temp_ret (a # c1) (b # c2) =
     (if a \<noteq> NUL \<and> b \<noteq> NUL then strcmp_natural_do temp_ret (a # c1) (b # c2)
      else if a = b then Inr temp_ret
      else Inr (uc a - uc b))"
| "strcmp_natural_while temp_ret [] _ = Inl OutOfBounds"
| "strcmp_natural_while temp_ret (a # c1) [] = Inl OutOfBounds"
  by pat_completeness auto
termination
proof (relation "measure (\<lambda>x. case x of
          Inl (t, c1, c2) \<Rightarrow> 2 * length c1
        | Inr (t, c1, c2) \<Rightarrow> 2 * length c1 + 1)")
  show "wf (measure (\<lambda>x. case x of
          Inl (t, c1, c2) \<Rightarrow> 2 * length c1
        | Inr (t, c1, c2) \<Rightarrow> 2 * length c1 + 1))"
    by simp
next
  fix temp_ret :: int and a b :: char and c1 c2 :: "char list"
  have "length (after_digits c1) \<le> length c1"
    unfolding after_digits_def by (rule length_dropWhile_le)
  then show "(Inr (temp_ret, after_digits c1, after_digits c2), Inl (temp_ret, a # c1, b # c2))
      \<in> measure (\<lambda>x. case x of
          Inl (t, c1, c2) \<Rightarrow> 2 * length c1
        | Inr (t, c1, c2) \<Rightarrow> 2 * length c1 + 1)"
    by simp
qed simp_all

definition strcmp_natural :: "char list \<Rightarrow> char list \<Rightarrow> ub + int" where
  "strcmp_natural s1 s2 = strcmp_natural_do 0 s1 s2"

text \<open>
  \<open>strcmp\<close> of the C library: the difference of the first two bytes that differ, read as
  \<open>unsigned char\<close> (ISO C fixes the sign only).
\<close>

fun strcmp :: "char list \<Rightarrow> char list \<Rightarrow> ub + int" where
  "strcmp (a # s1) (b # s2) =
     (if a \<noteq> b then Inr (uc a - uc b)
      else if a = NUL then Inr 0
      else strcmp s1 s2)"
| "strcmp _ _ = Inl OutOfBounds"

subsection \<open>Callbacks and related functions for \<open>qsort\<close>\<close>

text \<open>
  \<open>strrchr\<close> of the C library on the contents of a string: the index of the last
  occurrence of the byte, \<open>None\<close> for the null pointer.
\<close>

fun strrchr :: "string \<Rightarrow> char \<Rightarrow> nat option" where
  "strrchr [] c = None"
| "strrchr (x # s) c =
     (case strrchr s c of
        Some i \<Rightarrow> Some (Suc i)
      | None \<Rightarrow> if x = c then Some 0 else None)"

text \<open>
  An element of a file list is the contents \<open>path\<close> of a string (free of \<open>NUL\<close>) whose
  allocation is \<open>path @ [NUL]\<close>. \<open>qsort_compar\<close> overwrites the last separator with the
  terminator, so the first call of \<open>compar_fn\<close> sees the directory part, its terminator,
  and behind it the basename still in the same allocation.
\<close>

definition qsort_compar ::
  "(char list \<Rightarrow> char list \<Rightarrow> ub + int) \<Rightarrow> string \<Rightarrow> string \<Rightarrow> ub + int" where
  "qsort_compar compar_fn path1 path2 =
     (case strrchr path1 DIR_SEPARATOR of
        None \<Rightarrow> Inl NullDeref
      | Some sep1 \<Rightarrow>
          (case strrchr path2 DIR_SEPARATOR of
             None \<Rightarrow> Inl NullDeref
           | Some sep2 \<Rightarrow>
               (case compar_fn ((path1 @ [NUL])[sep1 := NUL]) ((path2 @ [NUL])[sep2 := NUL]) of
                  Inl e \<Rightarrow> Inl e
                | Inr result \<Rightarrow>
                    if result = 0
                    then compar_fn (drop (sep1 + 1) (path1 @ [NUL]))
                           (drop (sep2 + 1) (path2 @ [NUL]))
                    else Inr result)))"

definition qsort_compar_default :: "string \<Rightarrow> string \<Rightarrow> ub + int" where
  "qsort_compar_default p1 p2 = qsort_compar strcmp_default p1 p2"

definition qsort_compar_natural :: "string \<Rightarrow> string \<Rightarrow> ub + int" where
  "qsort_compar_natural p1 p2 = qsort_compar strcmp_natural p1 p2"

text \<open>\<open>strcoll\<close> depends on the locale; the caller's environment supplies it.\<close>

definition qsort_compar_collate ::
  "(char list \<Rightarrow> char list \<Rightarrow> ub + int) \<Rightarrow> string \<Rightarrow> string \<Rightarrow> ub + int" where
  "qsort_compar_collate strcoll p1 p2 = qsort_compar strcoll p1 p2"

definition qsort_compar_ascii :: "string \<Rightarrow> string \<Rightarrow> ub + int" where
  "qsort_compar_ascii p1 p2 = qsort_compar strcmp p1 p2"

datatype FL_SORT_METHOD =
  FL_SORT_NONE | FL_SORT_DEFAULT | FL_SORT_NATURAL | FL_SORT_COLLATE | FL_SORT_ASCII

fun get_compar_fn ::
  "(char list \<Rightarrow> char list \<Rightarrow> ub + int) \<Rightarrow> FL_SORT_METHOD \<Rightarrow>
     (string \<Rightarrow> string \<Rightarrow> ub + int) option" where
  "get_compar_fn strcoll FL_SORT_DEFAULT = Some qsort_compar_default"
| "get_compar_fn strcoll FL_SORT_NATURAL = Some qsort_compar_natural"
| "get_compar_fn strcoll FL_SORT_COLLATE = Some (qsort_compar_collate strcoll)"
| "get_compar_fn strcoll FL_SORT_ASCII = Some qsort_compar_ascii"
| "get_compar_fn strcoll FL_SORT_NONE = None"

text \<open>
  ISO C leaves the algorithm of \<open>qsort\<close> open. The embedding sorts by insertion, an
  element going in front of the first element it does not compare greater than. Where
  the callback is a strict total order on the elements, every sorting algorithm returns
  the same array.
\<close>

fun qsort_insert :: "('a \<Rightarrow> 'a \<Rightarrow> ub + int) \<Rightarrow> 'a \<Rightarrow> 'a list \<Rightarrow> ub + 'a list" where
  "qsort_insert compar x [] = Inr [x]"
| "qsort_insert compar x (y # ys) =
     (case compar x y of
        Inl e \<Rightarrow> Inl e
      | Inr r \<Rightarrow>
          if r \<le> 0 then Inr (x # y # ys)
          else (case qsort_insert compar x ys of
                  Inl e \<Rightarrow> Inl e
                | Inr zs \<Rightarrow> Inr (y # zs)))"

fun qsort :: "('a \<Rightarrow> 'a \<Rightarrow> ub + int) \<Rightarrow> 'a list \<Rightarrow> ub + 'a list" where
  "qsort compar [] = Inr []"
| "qsort compar (x # xs) =
     (case qsort compar xs of
        Inl e \<Rightarrow> Inl e
      | Inr ys \<Rightarrow> qsort_insert compar x ys)"

subsection \<open>The operating system\<close>

datatype errcode = E2BIG | EACCES | ENOMEM | ERANGE | Errno nat

record dirent =
  d_name :: string
  d_type :: nat

record struct_stat =
  st_dev :: nat
  st_ino :: nat
  st_mode :: nat

datatype regflag = REG_NOSUB | REG_EXTENDED | REG_ICASE

text \<open>
  \<open>opendir\<close> gives the error or the entries that the \<open>readdir\<close> calls return, in their
  order. \<open>malloc_ok n\<close> tells whether the \<open>n\<close>-th call of \<open>malloc\<close> or \<open>realloc\<close> (counted
  from 0) succeeds. \<open>regcomp\<close> gives the compiled expression as the predicate that
  \<open>regexec\<close> decides on a name, \<open>None\<close> where compilation fails. \<open>fprintf_stderr n\<close> is
  what the \<open>n\<close>-th \<open>fprintf\<close> to \<open>stderr\<close> does to \<open>errno\<close>: \<open>None\<close> where it leaves
  \<open>errno\<close> alone, \<open>Some e\<close> where it sets it to \<open>e\<close>, as a write that fails does.
\<close>

record os =
  opendir :: "string \<Rightarrow> errcode + dirent list"
  stat :: "string \<Rightarrow> errcode + struct_stat"
  lstat :: "string \<Rightarrow> errcode + struct_stat"
  malloc_ok :: "nat \<Rightarrow> bool"
  regcomp :: "string \<Rightarrow> regflag set \<Rightarrow> (string \<Rightarrow> bool) option"
  strcoll :: "char list \<Rightarrow> char list \<Rightarrow> ub + int"
  fprintf_stderr :: "nat \<Rightarrow> errcode option"

subsection \<open>Constants of \<open>file_list.h\<close> and \<open>file_list.c\<close>\<close>

unbundle bit_operations_syntax

definition FL_UNKNOWN :: int where "FL_UNKNOWN = 1"
definition FL_FIFO :: int where "FL_FIFO = 2"
definition FL_CHR :: int where "FL_CHR = 4"
definition FL_DIR :: int where "FL_DIR = 8"
definition FL_BLK :: int where "FL_BLK = 16"
definition FL_REG :: int where "FL_REG = 32"
definition FL_LNK :: int where "FL_LNK = 64"
definition FL_SOCK :: int where "FL_SOCK = 128"

definition FL_FOLLOW_LINKS :: int where "FL_FOLLOW_LINKS = 1"
definition FL_DIR_SEP :: int where "FL_DIR_SEP = 2"
definition FL_REGEX_CASE :: int where "FL_REGEX_CASE = 4"
definition FL_REGEX_BASIC :: int where "FL_REGEX_BASIC = 8"
definition FL_XDEV :: int where "FL_XDEV = 16"

definition FL_INITIAL_LIST_SIZE :: nat where "FL_INITIAL_LIST_SIZE = 512"
definition FL_MAX_LIST_SIZE :: nat where "FL_MAX_LIST_SIZE = 1048576"
definition STAT_STACK_INITIAL_SIZE :: nat where "STAT_STACK_INITIAL_SIZE = 512"

text \<open>\<open>size_t\<close> has 64 bits.\<close>

definition SIZE_MAX :: nat where "SIZE_MAX = 2 ^ 64 - 1"

text \<open>The \<open>d_type\<close> values of \<open>dirent.h\<close> that the code names.\<close>

definition DT_UNKNOWN :: nat where "DT_UNKNOWN = 0"
definition DT_DIR :: nat where "DT_DIR = 4"
definition DT_LNK :: nat where "DT_LNK = 10"

subsection \<open>The state of one call\<close>

text \<open>
  \<open>file_list\<close> holds the \<open>file_list_size\<close> paths stored so far, \<open>file_list_size_max\<close> is
  the number of cells allocated for them. \<open>stat_stack\<close> is \<open>array[0..top]\<close> of the stat
  stack and \<open>stat_stack_size\<close> its allocated size. \<open>n_alloc\<close> counts the allocator calls,
  \<open>n_fprintf\<close> the calls of \<open>fprintf\<close>.
\<close>

record state =
  file_list :: "string list"
  file_list_size_max :: nat
  stat_stack :: "struct_stat list"
  stat_stack_size :: nat
  errno :: errcode
  n_alloc :: nat
  n_fprintf :: nat

text \<open>One call of \<open>malloc\<close> or \<open>realloc\<close>; a failing call sets \<open>errno\<close>.\<close>

definition alloc :: "os \<Rightarrow> state \<Rightarrow> bool \<times> state" where
  "alloc sys st =
     (let ok = malloc_ok sys (n_alloc st)
      in (ok, st\<lparr>errno := (if ok then errno st else ENOMEM), n_alloc := n_alloc st + 1\<rparr>))"

text \<open>
  The macro \<open>DEBUG_PRINTF\<close>: \<open>file_list.h\<close> defines \<open>FL_DEBUG\<close>, so it is a call of
  \<open>fprintf(stderr, ...)\<close>.
\<close>

definition DEBUG_PRINTF :: "os \<Rightarrow> state \<Rightarrow> state" where
  "DEBUG_PRINTF sys st =
     st\<lparr>errno := (case fprintf_stderr sys (n_fprintf st) of None \<Rightarrow> errno st | Some e \<Rightarrow> e),
        n_fprintf := n_fprintf st + 1\<rparr>"

subsection \<open>Stat stack\<close>

definition stat_stack_create :: "os \<Rightarrow> state \<Rightarrow> int \<times> state" where
  "stat_stack_create sys st =
     (case alloc sys st of
        (ok, st1) \<Rightarrow>
          if \<not> ok then (- 1, st1)
          else (0, st1\<lparr>stat_stack := [], stat_stack_size := STAT_STACK_INITIAL_SIZE\<rparr>))"

definition stat_stack_push :: "os \<Rightarrow> struct_stat \<Rightarrow> state \<Rightarrow> ub + int \<times> state" where
  "stat_stack_push sys sb st =
     (if length (stat_stack st) = stat_stack_size st then
        (let new_size = stat_stack_size st * 2 in
         case alloc sys st of
           (ok, st1) \<Rightarrow>
             if \<not> ok then Inr (- 1, st1)
             else if new_size \<le> length (stat_stack st) then Inl OutOfBounds
             else Inr (0, st1\<lparr>stat_stack := stat_stack st @ [sb], stat_stack_size := new_size\<rparr>))
      else if stat_stack_size st < length (stat_stack st) then Inl OutOfBounds
      else Inr (0, st\<lparr>stat_stack := stat_stack st @ [sb]\<rparr>))"

definition stat_stack_pop :: "state \<Rightarrow> state" where
  "stat_stack_pop st = st\<lparr>stat_stack := butlast (stat_stack st)\<rparr>"

text \<open>
  With an empty stack \<open>top\<close> is \<open>-1\<close> and the loop bound \<open>(size_t) top\<close> is \<open>SIZE_MAX\<close>: the
  loop then reads behind the array.
\<close>

definition is_directory_loop :: "struct_stat list \<Rightarrow> struct_stat \<Rightarrow> ub + bool" where
  "is_directory_loop stack sb =
     (if stack = [] then Inl OutOfBounds
      else Inr (list_ex (\<lambda>e. st_ino e = st_ino sb \<and> st_dev e = st_dev sb) stack))"

subsection \<open>Paths\<close>

text \<open>\<open>dir[dir_len - 1]\<close> reads in front of an empty \<open>dir\<close>.\<close>

definition create_path :: "os \<Rightarrow> string \<Rightarrow> string \<Rightarrow> state \<Rightarrow> ub + string option \<times> state" where
  "create_path sys dir file st =
     (if dir = [] then Inl OutOfBounds
      else if last dir = DIR_SEPARATOR then
        (case alloc sys st of
           (ok, st1) \<Rightarrow> Inr (if ok then Some (dir @ file) else None, st1))
      else
        (case alloc sys st of
           (ok, st1) \<Rightarrow> Inr (if ok then Some (dir @ DIR_SEPARATOR # file) else None, st1)))"

text \<open>The \<open>for\<close> loop of \<open>create_clean_dir\<close>, and its \<open>while\<close> loop.\<close>

fun omit_separators :: "bool \<Rightarrow> string \<Rightarrow> string" where
  "omit_separators prev_char_is_separator [] = []"
| "omit_separators prev_char_is_separator (c # directory) =
     (if c = DIR_SEPARATOR then
        (if prev_char_is_separator then omit_separators prev_char_is_separator directory
         else c # omit_separators True directory)
      else c # omit_separators False directory)"

function remove_trailing :: "string \<Rightarrow> string" where
  "remove_trailing clean_dir =
     (if 1 < length clean_dir \<and> last clean_dir = DIR_SEPARATOR
      then remove_trailing (butlast clean_dir)
      else clean_dir)"
  by pat_completeness auto
termination
  by (relation "measure length") auto

declare remove_trailing.simps [simp del]

definition create_clean_dir :: "os \<Rightarrow> string option \<Rightarrow> state \<Rightarrow> string option \<times> state" where
  "create_clean_dir sys directory st =
     (case directory of
        None \<Rightarrow> (None, st)
      | Some d \<Rightarrow>
          if length d = 0 then (None, st)
          else (case alloc sys st of
                  (ok, st1) \<Rightarrow>
                    if \<not> ok then (None, st1)
                    else (Some (remove_trailing (omit_separators False d)), st1)))"

subsection \<open>The growable list\<close>

definition file_list_add :: "os \<Rightarrow> string \<Rightarrow> state \<Rightarrow> ub + int \<times> state" where
  "file_list_add sys path st =
     (let size = length (file_list st) in
      if size = file_list_size_max st then
        (if size = FL_MAX_LIST_SIZE then Inr (- 1, st\<lparr>errno := E2BIG\<rparr>)
         else
           let new_size = (file_list_size_max st * 2) mod (SIZE_MAX + 1);
               new_size = (if new_size < size then SIZE_MAX else new_size);
               st0 = DEBUG_PRINTF sys (st\<lparr>file_list_size_max :=
                        (if new_size > FL_MAX_LIST_SIZE then FL_MAX_LIST_SIZE else new_size)\<rparr>)
           in case alloc sys st0 of
                (ok, st1) \<Rightarrow>
                  if \<not> ok then Inr (- 1, st1)
                  else if file_list_size_max st1 \<le> size then Inl OutOfBounds
                  else Inr (0, st1\<lparr>file_list := file_list st1 @ [path]\<rparr>))
      else if file_list_size_max st < size then Inl OutOfBounds
      else Inr (0, st\<lparr>file_list := file_list st @ [path]\<rparr>))"

definition matches_regex :: "string \<Rightarrow> (string \<Rightarrow> bool) \<Rightarrow> bool" where
  "matches_regex file_name regex = regex file_name"

subsection \<open>The traversal\<close>

text \<open>
  The body of the \<open>readdir\<close> loop leaves in one of three ways: \<open>return -1\<close> (\<open>Return\<close>),
  \<open>continue\<close> (\<open>Continue\<close>), or by falling through to the next statement (\<open>Proceed\<close>).
\<close>

datatype control = Return state | Continue state | Proceed state

text \<open>The macro \<open>CREATE_CURRENT_PATH\<close>; the path \<open>None\<close> stands for its \<open>return -1\<close>.\<close>

definition CREATE_CURRENT_PATH ::
  "os \<Rightarrow> string \<Rightarrow> dirent \<Rightarrow> string option \<Rightarrow> state \<Rightarrow> ub + string option \<times> state" where
  "CREATE_CURRENT_PATH sys directory dp current_path st =
     (if current_path = None then create_path sys directory (d_name dp) st
      else Inr (current_path, st))"

definition is_current_or_parent :: "string \<Rightarrow> bool" where
  "is_current_or_parent name =
     (case name of
        [] \<Rightarrow> False
      | c0 # name1 \<Rightarrow>
          c0 = CHR ''.'' \<and>
          (case name1 of
             [] \<Rightarrow> True
           | c1 # name2 \<Rightarrow> c1 = CHR ''.'' \<and> name2 = []))"

text \<open>
  "Get the file's type": the type, the stat buffer where \<open>stat\<close> filled it, and the
  path where it was built.
\<close>

datatype classified =
  Failed state | Skipped state | Typed nat "struct_stat option" "string option" state

definition get_file_type :: "os \<Rightarrow> int \<Rightarrow> string \<Rightarrow> dirent \<Rightarrow> state \<Rightarrow> ub + classified" where
  "get_file_type sys flags directory dp st =
     (if d_type dp = DT_DIR \<or> d_type dp = DT_UNKNOWN
         \<or> (d_type dp = DT_LNK \<and> flags AND FL_FOLLOW_LINKS \<noteq> 0) then
        (case CREATE_CURRENT_PATH sys directory dp None st of
           Inl e \<Rightarrow> Inl e
         | Inr (None, st1) \<Rightarrow> Inr (Failed st1)
         | Inr (Some current_path, st1) \<Rightarrow>
             (case (if flags AND FL_FOLLOW_LINKS \<noteq> 0 then stat sys current_path
                    else lstat sys current_path) of
                Inl e \<Rightarrow> Inr (Skipped (DEBUG_PRINTF sys (st1\<lparr>errno := e\<rparr>)))
              | Inr sb \<Rightarrow>
                  Inr (Typed ((st_mode sb div 4096) mod 16) (Some sb) (Some current_path) st1)))
      else Inr (Typed (d_type dp) None None st))"

text \<open>
  "Traverse next directory", entered when \<open>directory_depth && current_type == 4\<close>.
  \<open>recurse\<close> is the recursive call of \<open>parse_file_tree\<close>; \<open>None\<close> is a call that does not
  return.
\<close>

definition traverse_next_directory ::
  "(string \<Rightarrow> int \<Rightarrow> state \<Rightarrow> (ub + int \<times> state) option) \<Rightarrow> os \<Rightarrow> int \<Rightarrow> int \<Rightarrow>
     struct_stat option \<Rightarrow> string option \<Rightarrow> state \<Rightarrow> (ub + control) option" where
  "traverse_next_directory recurse sys directory_depth flags sb_opt current_path st =
     (case sb_opt of
        None \<Rightarrow> Some (Inl Uninitialised)
      | Some sb \<Rightarrow>
          (case is_directory_loop (stat_stack st) sb of
             Inl e \<Rightarrow> Some (Inl e)
           | Inr True \<Rightarrow> Some (Inr (Continue (DEBUG_PRINTF sys st)))
           | Inr False \<Rightarrow>
               if flags AND FL_XDEV \<noteq> 0 \<and> st_dev (hd (stat_stack st)) \<noteq> st_dev sb
               then Some (Inr (Proceed (DEBUG_PRINTF sys st)))
               else
                 (case stat_stack_push sys sb st of
                    Inl e \<Rightarrow> Some (Inl e)
                  | Inr (r, st1) \<Rightarrow>
                      if r \<noteq> 0 then Some (Inr (Return st1))
                      else
                        (case current_path of
                           None \<Rightarrow> Some (Inl NullDeref)
                         | Some path \<Rightarrow>
                             (case recurse path
                                     (if directory_depth > 0 then directory_depth - 1
                                      else directory_depth) st1 of
                                None \<Rightarrow> None
                              | Some (Inl e) \<Rightarrow> Some (Inl e)
                              | Some (Inr (r2, st2)) \<Rightarrow>
                                  if r2 \<noteq> 0 then Some (Inr (Return st2))
                                  else Some (Inr (Proceed (stat_stack_pop st2))))))))"

text \<open>"Add file name to file list".\<close>

definition add_file_name ::
  "os \<Rightarrow> int list \<Rightarrow> (string \<Rightarrow> bool) option \<Rightarrow> string \<Rightarrow> int \<Rightarrow> dirent \<Rightarrow> nat \<Rightarrow>
     string option \<Rightarrow> state \<Rightarrow> ub + control" where
  "add_file_name sys file_type_arr file_ext directory flags dp current_type current_path st =
     (if length file_type_arr \<le> current_type then Inl OutOfBounds
      else if file_type_arr ! current_type = 1 then
        (if (case file_ext of None \<Rightarrow> False | Some regex \<Rightarrow> \<not> matches_regex (d_name dp) regex)
         then Inr (Continue st)
         else
           (case CREATE_CURRENT_PATH sys directory dp current_path st of
              Inl e \<Rightarrow> Inl e
            | Inr (None, st1) \<Rightarrow> Inr (Return st1)
            | Inr (Some path, st1) \<Rightarrow>
                (case (if current_type = 4 \<and> flags AND FL_DIR_SEP \<noteq> 0
                       then (case alloc sys st1 of
                               (ok, st2) \<Rightarrow>
                                 (if ok then Some (path @ [DIR_SEPARATOR]) else None, st2))
                       else (Some path, st1)) of
                   (None, st2) \<Rightarrow> Inr (Return st2)
                 | (Some new_path, st2) \<Rightarrow>
                     (case file_list_add sys new_path st2 of
                        Inl e \<Rightarrow> Inl e
                      | Inr (r, st3) \<Rightarrow>
                          if r = - 1 then Inr (Return st3) else Inr (Proceed st3)))))
      else Inr (Proceed st))"

definition readdir_loop_body ::
  "(string \<Rightarrow> int \<Rightarrow> state \<Rightarrow> (ub + int \<times> state) option) \<Rightarrow> os \<Rightarrow> int list \<Rightarrow>
     (string \<Rightarrow> bool) option \<Rightarrow> string \<Rightarrow> int \<Rightarrow> int \<Rightarrow> dirent \<Rightarrow> state \<Rightarrow>
     (ub + control) option" where
  "readdir_loop_body recurse sys file_type_arr file_ext directory directory_depth flags dp st =
     (if is_current_or_parent (d_name dp) then Some (Inr (Continue st))
      else
        (case get_file_type sys flags directory dp st of
           Inl e \<Rightarrow> Some (Inl e)
         | Inr (Failed st1) \<Rightarrow> Some (Inr (Return st1))
         | Inr (Skipped st1) \<Rightarrow> Some (Inr (Continue st1))
         | Inr (Typed current_type sb current_path st1) \<Rightarrow>
             (case (if directory_depth \<noteq> 0 \<and> current_type = 4
                    then traverse_next_directory recurse sys directory_depth flags sb
                           current_path st1
                    else Some (Inr (Proceed st1))) of
                None \<Rightarrow> None
              | Some (Inl e) \<Rightarrow> Some (Inl e)
              | Some (Inr (Return st2)) \<Rightarrow> Some (Inr (Return st2))
              | Some (Inr (Continue st2)) \<Rightarrow> Some (Inr (Continue st2))
              | Some (Inr (Proceed st2)) \<Rightarrow>
                  Some (add_file_name sys file_type_arr file_ext directory flags dp
                          current_type current_path st2))))"

text \<open>The \<open>readdir\<close> loop over the entries of the open directory, then \<open>return 0\<close>.\<close>

fun readdir_loop ::
  "(string \<Rightarrow> int \<Rightarrow> state \<Rightarrow> (ub + int \<times> state) option) \<Rightarrow> os \<Rightarrow> int list \<Rightarrow>
     (string \<Rightarrow> bool) option \<Rightarrow> string \<Rightarrow> int \<Rightarrow> int \<Rightarrow> dirent list \<Rightarrow> state \<Rightarrow>
     (ub + int \<times> state) option" where
  "readdir_loop recurse sys file_type_arr file_ext directory directory_depth flags [] st =
     Some (Inr (0, st))"
| "readdir_loop recurse sys file_type_arr file_ext directory directory_depth flags
     (dp # entries) st =
     (case readdir_loop_body recurse sys file_type_arr file_ext directory directory_depth
             flags dp st of
        None \<Rightarrow> None
      | Some (Inl e) \<Rightarrow> Some (Inl e)
      | Some (Inr (Return st1)) \<Rightarrow> Some (Inr (- 1, st1))
      | Some (Inr (Continue st1)) \<Rightarrow>
          readdir_loop recurse sys file_type_arr file_ext directory directory_depth flags
            entries st1
      | Some (Inr (Proceed st1)) \<Rightarrow>
          readdir_loop recurse sys file_type_arr file_ext directory directory_depth flags
            entries st1)"

text \<open>
  \<open>parse_file_tree\<close> recurses as deep as the directory tree, which with a negative depth
  nothing in the code bounds. The first argument bounds the number of nested calls; the
  result \<open>None\<close> is a call that needs more. Where \<open>opendir\<close> fails, \<open>errno\<close> is tested
  behind the \<open>DEBUG_PRINTF\<close> that reports the failure.
\<close>

primrec parse_file_tree ::
  "nat \<Rightarrow> os \<Rightarrow> int list \<Rightarrow> (string \<Rightarrow> bool) option \<Rightarrow> string \<Rightarrow> int \<Rightarrow> int \<Rightarrow> state \<Rightarrow>
     (ub + int \<times> state) option" where
  "parse_file_tree 0 sys file_type_arr file_ext directory directory_depth flags st = None"
| "parse_file_tree (Suc fuel) sys file_type_arr file_ext directory directory_depth flags st =
     (case opendir sys directory of
        Inl e \<Rightarrow>
          (let st1 = DEBUG_PRINTF sys (st\<lparr>errno := e\<rparr>)
           in Some (Inr (if errno st1 \<noteq> EACCES then - 1 else 0, st1)))
      | Inr entries \<Rightarrow>
          readdir_loop
            (\<lambda>path depth s. parse_file_tree fuel sys file_type_arr file_ext path depth flags s)
            sys file_type_arr file_ext directory directory_depth flags entries st)"

subsection \<open>Public functions\<close>

text \<open>
  What the caller's pointer \<open>*file_list\<close> is after a call: the null pointer, a pointer
  to an array that was given back to the allocator, an array of paths without a
  terminating null pointer, or a terminated array.
\<close>

datatype list_ptr = Null | Dangling | Unterminated "string list" | Terminated "string list"

text \<open>
  \<open>ret\<close> is the value returned, \<open>freed\<close> the path strings that the clean-up loop gave
  back to the allocator, \<open>out_errno\<close> the value of \<open>errno\<close> at the return.
\<close>

record create_result =
  ret :: int
  out_list :: list_ptr
  freed :: "string list"
  out_errno :: errcode

definition create_file_type_arr :: "int \<Rightarrow> int list" where
  "create_file_type_arr file_type =
     (if file_type = 0 then replicate 13 1
      else
        let a = replicate 13 0;
            a = (if file_type AND FL_UNKNOWN \<noteq> 0 then a[0 := 1] else a);
            a = (if file_type AND FL_FIFO \<noteq> 0 then a[1 := 1] else a);
            a = (if file_type AND FL_CHR \<noteq> 0 then a[2 := 1] else a);
            a = (if file_type AND FL_DIR \<noteq> 0 then a[4 := 1] else a);
            a = (if file_type AND FL_BLK \<noteq> 0 then a[6 := 1] else a);
            a = (if file_type AND FL_REG \<noteq> 0 then a[8 := 1] else a);
            a = (if file_type AND FL_LNK \<noteq> 0 then a[10 := 1] else a);
            a = (if file_type AND FL_SOCK \<noteq> 0 then a[12 := 1] else a)
        in a)"

text \<open>The flags that \<open>file_list_create\<close> hands to \<open>regcomp\<close>.\<close>

definition regex_flags :: "int \<Rightarrow> regflag set" where
  "regex_flags flags =
     (let regex_flags = {REG_NOSUB} in
      if flags \<noteq> 0 then
        (let regex_flags = (if flags AND FL_REGEX_BASIC = 0
                            then insert REG_EXTENDED regex_flags else regex_flags);
             regex_flags = (if flags AND FL_REGEX_CASE = 0
                            then insert REG_ICASE regex_flags else regex_flags)
         in regex_flags)
      else regex_flags)"

text \<open>The part of \<open>file_list_create\<close> behind the call of \<open>parse_file_tree\<close>.\<close>

definition file_list_create_finish ::
  "os \<Rightarrow> FL_SORT_METHOD \<Rightarrow> int \<Rightarrow> state \<Rightarrow> ub + create_result" where
  "file_list_create_finish sys sort_method r st =
     (if r \<noteq> 0 \<and> errno st \<noteq> E2BIG
      then Inr \<lparr>ret = - 1, out_list = Null, freed = file_list st, out_errno = errno st\<rparr>
      else
        (case alloc sys st of
           (ok, st1) \<Rightarrow>
             if \<not> ok
             then Inr \<lparr>ret = - 1, out_list = Unterminated (file_list st1), freed = [],
                       out_errno = errno st1\<rparr>
             else
               (case get_compar_fn (strcoll sys) sort_method of
                  None \<Rightarrow>
                    Inr \<lparr>ret = int (length (file_list st1)),
                         out_list = Terminated (file_list st1), freed = [],
                         out_errno = errno st1\<rparr>
                | Some compar_fn \<Rightarrow>
                    (case qsort compar_fn (file_list st1) of
                       Inl e \<Rightarrow> Inl e
                     | Inr sorted_list \<Rightarrow>
                         Inr \<lparr>ret = int (length (file_list st1)),
                              out_list = Terminated sorted_list, freed = [],
                              out_errno = errno st1\<rparr>))))"

text \<open>
  \<open>file_list_create\<close>. \<open>fuel\<close> bounds the nesting of \<open>parse_file_tree\<close>, \<open>errno0\<close> is the
  value of \<open>errno\<close> at the call. (\<open>stat\<close> on the null pointer fails with \<open>EFAULT\<close>, 14;
  \<open>create_clean_dir\<close> has returned before for such a \<open>dir\<close>.)
\<close>

definition file_list_create ::
  "nat \<Rightarrow> os \<Rightarrow> int \<Rightarrow> string option \<Rightarrow> string option \<Rightarrow> int \<Rightarrow> int \<Rightarrow> FL_SORT_METHOD \<Rightarrow>
     errcode \<Rightarrow> (ub + create_result) option" where
  "file_list_create fuel sys file_type regex_pattern dir depth flags sort_method errno0 =
     (case alloc sys \<lparr>file_list = [], file_list_size_max = FL_INITIAL_LIST_SIZE,
                      stat_stack = [], stat_stack_size = 0, errno = errno0, n_alloc = 0,
                      n_fprintf = 0\<rparr> of
        (ok, st1) \<Rightarrow>
          if \<not> ok
          then Some (Inr \<lparr>ret = - 1, out_list = Null, freed = [], out_errno = errno st1\<rparr>)
          else
            let file_type_arr = create_file_type_arr file_type in
            (case (case regex_pattern of
                     None \<Rightarrow> Some None
                   | Some pattern \<Rightarrow>
                       (case regcomp sys pattern (regex_flags flags) of
                          None \<Rightarrow> None
                        | Some regex \<Rightarrow> Some (Some regex))) of
               None \<Rightarrow>
                 Some (Inr \<lparr>ret = - 1, out_list = Dangling, freed = [], out_errno = errno st1\<rparr>)
             | Some file_ext \<Rightarrow>
                 (case create_clean_dir sys dir st1 of
                    (None, st2) \<Rightarrow>
                      Some (Inr \<lparr>ret = - 1, out_list = Dangling, freed = [],
                                 out_errno = errno st2\<rparr>)
                  | (Some start_dir, st2) \<Rightarrow>
                      (case stat_stack_create sys st2 of
                         (r3, st3) \<Rightarrow>
                           if r3 \<noteq> 0
                           then Some (Inr \<lparr>ret = - 1, out_list = Dangling, freed = [],
                                           out_errno = errno st3\<rparr>)
                           else
                             (case (case dir of None \<Rightarrow> Inl (Errno 14) | Some d \<Rightarrow> stat sys d) of
                                Inl e \<Rightarrow>
                                  Some (Inr \<lparr>ret = - 1, out_list = Dangling, freed = [],
                                             out_errno = e\<rparr>)
                              | Inr sb \<Rightarrow>
                                  (case stat_stack_push sys sb st3 of
                                     Inl e \<Rightarrow> Some (Inl e)
                                   | Inr (r4, st4) \<Rightarrow>
                                       (case parse_file_tree fuel sys file_type_arr file_ext
                                               start_dir depth flags st4 of
                                          None \<Rightarrow> None
                                        | Some (Inl e) \<Rightarrow> Some (Inl e)
                                        | Some (Inr (r, st5)) \<Rightarrow>
                                            Some (file_list_create_finish sys sort_method
                                                    r st5))))))))"

text \<open>
  \<open>file_list_merge\<close>. The two lists are given by their elements, the terminating null
  pointer left out, so \<open>file_list_getsize\<close> is the length. A size given by the caller
  that is larger than the list makes the code take cells behind the elements for
  elements; the embedding reports that as \<open>OutOfBounds\<close>. \<open>realloc_ok\<close> tells whether
  the one \<open>realloc\<close> succeeds, \<open>coll\<close> is the \<open>strcoll\<close> of the environment.
\<close>

record merge_result =
  merge_ret :: int
  destination_list :: "string list"
  source_list :: "string list option"
  merge_errno :: errcode

definition file_list_getsize :: "string list \<Rightarrow> nat" where
  "file_list_getsize list = length list"

definition file_list_merge ::
  "bool \<Rightarrow> (char list \<Rightarrow> char list \<Rightarrow> ub + int) \<Rightarrow> string list \<Rightarrow> nat \<Rightarrow> string list \<Rightarrow> nat \<Rightarrow>
     FL_SORT_METHOD \<Rightarrow> errcode \<Rightarrow> ub + merge_result" where
  "file_list_merge realloc_ok coll destination n_dest source n_source sort_method errno0 =
     (let n_dest = (if n_dest = 0 then file_list_getsize destination else n_dest);
          n_source = (if n_source = 0 then file_list_getsize source else n_source);
          n = (n_dest + n_source) mod (SIZE_MAX + 1)
      in if n < n_source \<or> (n + 1) mod (SIZE_MAX + 1) = 0
         then Inr \<lparr>merge_ret = - 1, destination_list = destination,
                   source_list = Some source, merge_errno = ERANGE\<rparr>
         else if \<not> realloc_ok
         then Inr \<lparr>merge_ret = - 1, destination_list = destination,
                   source_list = Some source, merge_errno = ENOMEM\<rparr>
         else if length destination < n_dest \<or> length source < n_source then Inl OutOfBounds
         else
           let combined = take n_dest destination @ take n_source source in
           (case get_compar_fn coll sort_method of
              None \<Rightarrow>
                Inr \<lparr>merge_ret = int n, destination_list = combined, source_list = None,
                     merge_errno = errno0\<rparr>
            | Some compar_fn \<Rightarrow>
                (case qsort qsort_compar_default combined of
                   Inl e \<Rightarrow> Inl e
                 | Inr sorted_list \<Rightarrow>
                     Inr \<lparr>merge_ret = int n, destination_list = sorted_list,
                          source_list = None, merge_errno = errno0\<rparr>)))"

section \<open>Example environments\<close>

text \<open>
  A directory \<open>r\<close> (device 1, inode 10) that holds the regular file \<open>a.txt\<close>, the
  directory \<open>sub\<close> (inode 11) with the files \<open>B.txt\<close> and \<open>b.txt\<close>, the symbolic link
  \<open>self\<close> to \<open>r\<close> itself, and the directory \<open>mnt\<close> on device 2 with the file \<open>c.txt\<close>.
  Every allocation succeeds; the pattern \<open>[\<close> does not compile, every other pattern
  matches every name.
\<close>

definition demo_os :: os where
  "demo_os =
     \<lparr>opendir = (\<lambda>p.
        if p = ''r''
        then Inr [\<lparr>d_name = ''.'', d_type = 4\<rparr>, \<lparr>d_name = ''a.txt'', d_type = 8\<rparr>,
                  \<lparr>d_name = ''sub'', d_type = 4\<rparr>, \<lparr>d_name = ''self'', d_type = 10\<rparr>,
                  \<lparr>d_name = ''mnt'', d_type = 4\<rparr>]
        else if p = ''r/sub''
        then Inr [\<lparr>d_name = ''B.txt'', d_type = 8\<rparr>, \<lparr>d_name = ''b.txt'', d_type = 8\<rparr>]
        else if p = ''r/mnt''
        then Inr [\<lparr>d_name = ''c.txt'', d_type = 8\<rparr>]
        else Inl (Errno 2)),
      stat = (\<lambda>p.
        if p = ''r'' \<or> p = ''r/self'' then Inr \<lparr>st_dev = 1, st_ino = 10, st_mode = 16877\<rparr>
        else if p = ''r/sub'' then Inr \<lparr>st_dev = 1, st_ino = 11, st_mode = 16877\<rparr>
        else if p = ''r/mnt'' then Inr \<lparr>st_dev = 2, st_ino = 2, st_mode = 16877\<rparr>
        else Inl (Errno 2)),
      lstat = (\<lambda>p.
        if p = ''r'' then Inr \<lparr>st_dev = 1, st_ino = 10, st_mode = 16877\<rparr>
        else if p = ''r/sub'' then Inr \<lparr>st_dev = 1, st_ino = 11, st_mode = 16877\<rparr>
        else if p = ''r/self'' then Inr \<lparr>st_dev = 1, st_ino = 12, st_mode = 41471\<rparr>
        else if p = ''r/mnt'' then Inr \<lparr>st_dev = 2, st_ino = 2, st_mode = 16877\<rparr>
        else Inl (Errno 2)),
      malloc_ok = (\<lambda>n. True),
      regcomp = (\<lambda>pattern cflags. if pattern = ''['' then None else Some (\<lambda>name. True)),
      strcoll = strcmp,
      fprintf_stderr = (\<lambda>n. None)\<rparr>"

text \<open>
  An endless chain of directories: every directory holds one directory, named \<open>d\<close>, and
  the inode number of a path is its length, so no directory is met twice. Every
  allocation succeeds.
\<close>

definition chain_os :: os where
  "chain_os =
     \<lparr>opendir = (\<lambda>p. Inr [\<lparr>d_name = ''d'', d_type = 4\<rparr>]),
      stat = (\<lambda>p. Inr \<lparr>st_dev = 1, st_ino = length p, st_mode = 16877\<rparr>),
      lstat = (\<lambda>p. Inr \<lparr>st_dev = 1, st_ino = length p, st_mode = 16877\<rparr>),
      malloc_ok = (\<lambda>n. True),
      regcomp = (\<lambda>pattern cflags. None),
      strcoll = strcmp,
      fprintf_stderr = (\<lambda>n. None)\<rparr>"





text \<open>
  A collation in which the hyphen has no weight: two strings are compared byte by byte
  after their hyphens are left out, so that \<open>co-op\<close> and \<open>coop\<close> tie.
\<close>

definition strcoll_no_hyphen :: "char list \<Rightarrow> char list \<Rightarrow> ub + int" where
  "strcoll_no_hyphen s1 s2 =
     strcmp (filter (\<lambda>c. c \<noteq> CHR ''-'') s1) (filter (\<lambda>c. c \<noteq> CHR ''-'') s2)"

section \<open>Notions of the properties\<close>

text \<open>The number that a run of decimal digits denotes.\<close>

primrec decimal :: "char list \<Rightarrow> int" where
  "decimal [] = 0"
| "decimal (c # z) = (uc c - 48) * 10 ^ length z + decimal z"

text \<open>The state that the body of the \<open>readdir\<close> loop leaves.\<close>

primrec control_state :: "control \<Rightarrow> state" where
  "control_state (Return st) = st"
| "control_state (Continue st) = st"
| "control_state (Proceed st) = st"

text \<open>
  The state in which \<open>file_list_create\<close> starts the traversal, and the list after \<open>g\<close>
  doublings of its initial size.
\<close>

definition traversal_start :: "struct_stat \<Rightarrow> errcode \<Rightarrow> state" where
  "traversal_start sb errno0 =
     \<lparr>file_list = [], file_list_size_max = FL_INITIAL_LIST_SIZE, stat_stack = [sb],
      stat_stack_size = STAT_STACK_INITIAL_SIZE, errno = errno0, n_alloc = 3,
      n_fprintf = 0\<rparr>"


section \<open>Properties\<close>

subsection \<open>The sort of \<open>file_list_merge\<close>\<close>

text \<open>
  C1. \<open>file_list_merge\<close> is to sort the combined list with the callback of the given
  sort method. The code looks the callback up only to decide whether to sort, and hands
  \<open>qsort_compar_default\<close> to \<open>qsort\<close> whatever the method is. Merging \<open>d/b\<close> and \<open>d/B\<close>
  with \<open>FL_SORT_ASCII\<close> returns \<open>d/b\<close> first, the order of the default callback
  (lowercase first), where the ASCII callback orders \<open>d/B\<close> first.
\<close>

theorem file_list_merge_ascii_sorts_by_default:
  "file_list_merge True strcmp [''d/b''] 0 [''d/B''] 0 FL_SORT_ASCII (Errno 0) =
     Inr \<lparr>merge_ret = 2, destination_list = [''d/b'', ''d/B''], source_list = None,
          merge_errno = Errno 0\<rparr>
   \<and> qsort qsort_compar_ascii [''d/b'', ''d/B''] = Inr [''d/B'', ''d/b'']
   \<and> qsort_compar_ascii ''d/b'' ''d/B'' = Inr 32
   \<and> qsort_compar_default ''d/b'' ''d/B'' = Inr (- 32)"
  by (simp add: file_list_merge_def file_list_getsize_def SIZE_MAX_def
      qsort_compar_default_def qsort_compar_ascii_def qsort_compar_def DIR_SEPARATOR_def
      NUL_def strcmp_default_def uc_def tolower_def)

subsection \<open>Failures of \<open>file_list_create\<close>\<close>

text \<open>
  C2. On every failure but the exhausted capacity \<open>file_list_create\<close> is to return \<open>-1\<close>
  with the list deallocated and the caller's pointer set to null, as the header
  documents. Where the pattern does not compile the code frees the array and returns
  \<open>-1\<close>, and the caller's pointer still holds the address of the freed array.
\<close>

theorem file_list_create_regcomp_failure_leaves_pointer:
  "file_list_create 1 demo_os 0 (Some ''['') (Some ''r'') 0 0 FL_SORT_DEFAULT (Errno 0) =
     Some (Inr \<lparr>ret = - 1, out_list = Dangling, freed = [], out_errno = Errno 0\<rparr>)"
  by (simp add: file_list_create_def alloc_def demo_os_def)

subsection \<open>The flags of the pattern\<close>

text \<open>
  C3. The pattern is to be compiled without regard to case unless \<open>FL_REGEX_CASE\<close> is
  set, and as an extended expression unless \<open>FL_REGEX_BASIC\<close> is set. With no flag set
  at all the code skips both tests and compiles with \<open>REG_NOSUB\<close> alone: a basic
  expression that regards case, although neither bit is set.
\<close>

theorem regex_flags_without_flags:
  "regex_flags 0 = {REG_NOSUB}
   \<and> (0 :: int) AND FL_REGEX_CASE = 0 \<and> (0 :: int) AND FL_REGEX_BASIC = 0
   \<and> REG_ICASE \<notin> regex_flags 0 \<and> REG_EXTENDED \<notin> regex_flags 0"
  by (simp add: regex_flags_def)

subsection \<open>Bytes\<close>

lemma uc_eq_iff [simp]: "uc a = uc b \<longleftrightarrow> a = b"
  by (simp add: uc_def)

lemma uc_NUL [simp]: "uc NUL = 0"
  by (simp add: uc_def NUL_def)

lemma uc_of_nat: "uc c = int (of_char c)"
  by (simp add: uc_def of_nat_of_char)

lemma uc_nonneg [simp]: "0 \<le> uc c"
  by (simp add: uc_of_nat)

lemma uc_less_256: "uc c < 256"
  using nat_of_char_less_256 [of c] by (simp add: uc_of_nat)

lemma uc_eq_0_iff [simp]: "uc c = 0 \<longleftrightarrow> c = NUL"
  using uc_eq_iff [of c NUL] by (simp del: uc_eq_iff)

lemma uc_pos: "c \<noteq> NUL \<Longrightarrow> 0 < uc c"
  using uc_nonneg [of c] uc_eq_0_iff [of c] by linarith

lemma tolower_eq_0_iff [simp]: "tolower x = 0 \<longleftrightarrow> x = 0"
  by (simp add: tolower_def)

lemma tolower_0_eq_iff [simp]: "0 = tolower x \<longleftrightarrow> x = 0"
  by (simp add: tolower_def)

lemma tolower_0 [simp]: "tolower 0 = 0"
  by (simp add: tolower_def)

lemma tolower_pos: "0 < x \<Longrightarrow> 0 < tolower x"
  by (simp add: tolower_def)

subsection \<open>The path-aware callbacks\<close>

lemma strrchr_None_iff: "strrchr s c = None \<longleftrightarrow> c \<notin> set s"
  by (induction s) (auto split: option.splits)

lemma strrchr_last: "c \<notin> set b \<Longrightarrow> strrchr (d @ c # b) c = Some (length d)"
  by (induction d) (auto simp: strrchr_None_iff split: option.splits)

lemma drop_behind_separator: "drop (length d + 1) ((d @ x # b) @ e) = b @ e"
  by (induction d) auto

lemma qsort_compar_split:
  assumes "DIR_SEPARATOR \<notin> set b1" and "DIR_SEPARATOR \<notin> set b2"
  shows "qsort_compar compar_fn (d1 @ DIR_SEPARATOR # b1) (d2 @ DIR_SEPARATOR # b2) =
     (case compar_fn (d1 @ NUL # b1 @ [NUL]) (d2 @ NUL # b2 @ [NUL]) of
        Inl e \<Rightarrow> Inl e
      | Inr result \<Rightarrow>
          if result = 0 then compar_fn (b1 @ [NUL]) (b2 @ [NUL]) else Inr result)"
  using assms
  by (simp add: qsort_compar_def strrchr_last list_update_append drop_behind_separator
      split: sum.splits)

text \<open>
  Two different strings never tie under \<open>strcmp_default\<close>, \<open>strcmp_natural\<close> or \<open>strcmp\<close>,
  and the result does not depend on the memory behind the two terminators.
\<close>

lemma strcmp_default_while_differ:
  assumes "NUL \<notin> set d1" "NUL \<notin> set d2" "t \<noteq> 0 \<or> d1 \<noteq> d2"
  shows "\<exists>r. r \<noteq> 0 \<and> (\<forall>m1 m2. strcmp_default_while t (d1 @ NUL # m1) (d2 @ NUL # m2) = Inr r)"
  using assms
proof (induction d1 arbitrary: d2 t)
  case Nil
  then show ?case by (cases d2) auto
next
  case (Cons x xs)
  show ?case
  proof (cases d2)
    case Nil
    with Cons.prems show ?thesis by auto
  next
    case (Cons y ys)
    note d2 = this
    from Cons.prems d2 have nz: "x \<noteq> NUL" "y \<noteq> NUL" "NUL \<notin> set xs" "NUL \<notin> set ys" by auto
    show ?thesis
    proof (cases "x = y")
      case True
      with Cons.prems d2 have "t \<noteq> 0 \<or> xs \<noteq> ys" by auto
      from Cons.IH [OF nz(3) nz(4) this] obtain r where
        "r \<noteq> 0" "\<forall>m1 m2. strcmp_default_while t (xs @ NUL # m1) (ys @ NUL # m2) = Inr r" by blast
      with True nz d2 show ?thesis by auto
    next
      case False
      show ?thesis
      proof (cases "tolower (uc x) = tolower (uc y)")
        case True
        let ?t = "if t = 0 then uc y - uc x else t"
        from False have "?t \<noteq> 0" by auto
        then have "?t \<noteq> 0 \<or> xs \<noteq> ys" by blast
        from Cons.IH [OF nz(3) nz(4) this] obtain r where
          "r \<noteq> 0" "\<forall>m1 m2. strcmp_default_while ?t (xs @ NUL # m1) (ys @ NUL # m2) = Inr r" by blast
        with True False nz d2 show ?thesis by (auto simp: Let_def)
      next
        case neq: False
        with False nz d2 show ?thesis by (auto simp: Let_def)
      qed
    qed
  qed
qed

lemma strcmp_default_differ:
  assumes "NUL \<notin> set d1" "NUL \<notin> set d2" "d1 \<noteq> d2"
  shows "\<exists>r. r \<noteq> 0 \<and> (\<forall>m1 m2. strcmp_default (d1 @ NUL # m1) (d2 @ NUL # m2) = Inr r)"
proof (cases d1)
  case Nil
  with assms obtain y ys where "d2 = y # ys" "y \<noteq> NUL" by (cases d2) auto
  with Nil show ?thesis by (auto simp: strcmp_default_def Let_def uc_pos tolower_pos)
next
  case (Cons x xs)
  note d1 = this
  show ?thesis
  proof (cases d2)
    case Nil
    with d1 assms show ?thesis by (auto simp: strcmp_default_def Let_def)
  next
    case (Cons y ys)
    have "strcmp_default_while 0 (d1 @ NUL # m1) (d2 @ NUL # m2) = strcmp_default (d1 @ NUL # m1) (d2 @ NUL # m2)" for m1 m2
      using d1 Cons assms by (auto simp: strcmp_default_def)
    with strcmp_default_while_differ [OF assms(1,2), of 0] assms(3) show ?thesis by auto
  qed
qed


lemma strcmp_differ:
  assumes "NUL \<notin> set d1" "NUL \<notin> set d2" "d1 \<noteq> d2"
  shows "\<exists>r. r \<noteq> 0 \<and> (\<forall>m1 m2. strcmp (d1 @ NUL # m1) (d2 @ NUL # m2) = Inr r)"
  using assms
proof (induction d1 arbitrary: d2)
  case Nil
  then show ?case by (cases d2) auto
next
  case (Cons x xs)
  show ?case
  proof (cases d2)
    case Nil
    with Cons.prems show ?thesis by auto
  next
    case (Cons y ys)
    show ?thesis
    proof (cases "x = y")
      case True
      with Cons.prems Cons have "NUL \<notin> set xs" "NUL \<notin> set ys" "xs \<noteq> ys" by auto
      from Cons.IH [OF this] obtain r where
        "r \<noteq> 0" "\<forall>m1 m2. strcmp (xs @ NUL # m1) (ys @ NUL # m2) = Inr r" by blast
      with True Cons Cons.prems show ?thesis by auto
    next
      case False
      with Cons show ?thesis by auto
    qed
  qed
qed

lemma isdigit_0 [simp]: "\<not> isdigit 0"
  by (simp add: isdigit_def)

lemma digit_run_append_NUL [simp]: "digit_run (d @ NUL # m) = digit_run d"
  by (induction d) (auto simp: digit_run_def)

lemma after_digits_append_NUL [simp]: "after_digits (d @ NUL # m) = after_digits d @ NUL # m"
  by (induction d) (auto simp: after_digits_def)

lemma digit_run_after_digits: "digit_run d @ after_digits d = d"
  by (simp add: digit_run_def after_digits_def)

lemma digit_run_Cons: "isdigit (uc x) \<Longrightarrow> digit_run (x # d) = x # digit_run d"
  by (simp add: digit_run_def)

lemma after_digits_Cons: "isdigit (uc x) \<Longrightarrow> after_digits (x # d) = after_digits d"
  by (simp add: after_digits_def)

lemma length_after_digits: "length (after_digits d) \<le> length d"
  by (simp add: after_digits_def length_dropWhile_le)

lemma set_after_digits: "x \<in> set (after_digits d) \<Longrightarrow> x \<in> set d"
  by (simp add: after_digits_def set_dropWhileD)

lemma skip_zeroes_replicate:
  "z = replicate (length z - length (skip_zeroes z)) (CHR ''0'') @ skip_zeroes z"
proof (induction z rule: skip_zeroes.induct)
  case (1 x y p)
  have "length (skip_zeroes (y # p)) \<le> length (y # p)"
    by (induction "y # p" arbitrary: y p rule: skip_zeroes.induct) (auto split: if_splits)
  with 1 show ?case
    by (auto simp: Suc_diff_le)
qed auto

lemma skip_zeroes_inj:
  assumes "skip_zeroes z1 = skip_zeroes z2" "length z1 = length z2"
  shows "z1 = z2"
  using skip_zeroes_replicate [of z1] skip_zeroes_replicate [of z2] assms by simp

lemma compare_digits_None:
  "compare_digits p1 p2 = None \<Longrightarrow> length p1 = length p2 \<Longrightarrow> p1 = p2"
  by (induction p1 p2 rule: compare_digits.induct) (auto split: if_splits)

lemma compare_digits_Some: "compare_digits p1 p2 = Some d \<Longrightarrow> d \<noteq> 0"
  by (induction p1 p2 rule: compare_digits.induct) (auto split: if_splits)

lemma strcmp_natural_while_differ:
  assumes "NUL \<notin> set d1" "NUL \<notin> set d2" "t \<noteq> 0 \<or> d1 \<noteq> d2"
  shows "\<exists>r. r \<noteq> 0 \<and> (\<forall>m1 m2. strcmp_natural_while t (d1 @ NUL # m1) (d2 @ NUL # m2) = Inr r)"
  using assms
proof (induction "length d1" arbitrary: d1 d2 t rule: less_induct)
  case less
  show ?case
  proof (cases d1)
    case Nil
    with less.prems show ?thesis by (cases d2) auto
  next
    case d1: (Cons x xs)
    show ?thesis
    proof (cases d2)
      case Nil
      with d1 less.prems show ?thesis by auto
    next
      case d2: (Cons y ys)
      from less.prems d1 d2 have nz: "x \<noteq> NUL" "y \<noteq> NUL" "NUL \<notin> set xs" "NUL \<notin> set ys"
        by auto
      have step: "strcmp_natural_while t (d1 @ NUL # m1) (d2 @ NUL # m2) =
          strcmp_natural_do t (x # xs @ NUL # m1) (y # ys @ NUL # m2)" for m1 m2
        using d1 d2 nz by simp
      show ?thesis
      proof (cases "isdigit (uc x) \<and> isdigit (uc y)")
        case True
        define z1 where "z1 = digit_run (x # xs)"
        define z2 where "z2 = digit_run (y # ys)"
        define p1 where "p1 = skip_zeroes z1"
        define p2 where "p2 = skip_zeroes z2"
        have run: "digit_run (x # xs @ NUL # m) = z1" "digit_run (y # ys @ NUL # m) = z2" for m
          using digit_run_append_NUL [of "x # xs" m] digit_run_append_NUL [of "y # ys" m]
          by (simp_all add: z1_def z2_def)
        have digits: "strcmp_natural_do t (x # xs @ NUL # m1) (y # ys @ NUL # m2) =
            (if int (length p1) - 1 \<noteq> int (length p2) - 1
             then Inr (int (length p1) - 1 - (int (length p2) - 1))
             else case compare_digits p1 p2 of
                    Some d \<Rightarrow> Inr d
                  | None \<Rightarrow>
                      if int (length z1) - 1 \<noteq> int (length z2) - 1
                      then Inr (int (length z2) - 1 - (int (length z1) - 1))
                      else strcmp_natural_while t (after_digits xs @ NUL # m1)
                             (after_digits ys @ NUL # m2))" for m1 m2
          using True run [of m1] run [of m2]
          by (simp add: Let_def p1_def p2_def split: option.splits)
        show ?thesis
        proof (cases "int (length p1) - 1 \<noteq> int (length p2) - 1")
          case True
          then show ?thesis unfolding step digits by auto
        next
          case lenp: False
          show ?thesis
          proof (cases "compare_digits p1 p2")
            case (Some d)
            with lenp compare_digits_Some [OF Some] show ?thesis unfolding step digits by auto
          next
            case None
            show ?thesis
            proof (cases "int (length z1) - 1 \<noteq> int (length z2) - 1")
              case True
              with lenp None show ?thesis unfolding step digits by auto
            next
              case lenz: False
              from None lenp have "p1 = p2" by (auto intro: compare_digits_None)
              with lenz have "z1 = z2" by (auto intro: skip_zeroes_inj simp: p1_def p2_def)
              moreover have "x # xs = z1 @ after_digits xs" "y # ys = z2 @ after_digits ys"
                using True digit_run_after_digits [of "x # xs"] digit_run_after_digits [of "y # ys"]
                by (simp_all add: z1_def z2_def after_digits_Cons)
              ultimately have "t \<noteq> 0 \<or> after_digits xs \<noteq> after_digits ys"
                using less.prems(3) d1 d2 by auto
              moreover have "length (after_digits xs) < length d1"
                using length_after_digits [of xs] d1 by simp
              moreover have "NUL \<notin> set (after_digits xs)" "NUL \<notin> set (after_digits ys)"
                using nz set_after_digits by blast+
              ultimately obtain r where "r \<noteq> 0"
                "\<forall>m1 m2. strcmp_natural_while t (after_digits xs @ NUL # m1)
                    (after_digits ys @ NUL # m2) = Inr r"
                using less.hyps by blast
              with lenp None lenz show ?thesis unfolding step digits by auto
            qed
          qed
        qed
      next
        case nodigits: False
        have len: "length xs < length d1" using d1 by simp
        show ?thesis
        proof (cases "x = y")
          case True
          with less.prems d1 d2 have "t \<noteq> 0 \<or> xs \<noteq> ys" by auto
          from less.hyps [OF len nz(3) nz(4) this] obtain r where
            "r \<noteq> 0" "\<forall>m1 m2. strcmp_natural_while t (xs @ NUL # m1) (ys @ NUL # m2) = Inr r"
            by blast
          with True nodigits show ?thesis unfolding step by auto
        next
          case False
          show ?thesis
          proof (cases "tolower (uc x) = tolower (uc y)")
            case True
            let ?t = "if t = 0 then uc y - uc x else t"
            from False have "?t \<noteq> 0 \<or> xs \<noteq> ys" by auto
            from less.hyps [OF len nz(3) nz(4) this] obtain r where
              "r \<noteq> 0" "\<forall>m1 m2. strcmp_natural_while ?t (xs @ NUL # m1) (ys @ NUL # m2) = Inr r"
              by blast
            with True False nodigits show ?thesis unfolding step by (auto simp: Let_def)
          next
            case neq: False
            with False nodigits show ?thesis unfolding step by (auto simp: Let_def)
          qed
        qed
      qed
    qed
  qed
qed


lemma strcmp_natural_differ:
  assumes "NUL \<notin> set d1" "NUL \<notin> set d2" "d1 \<noteq> d2"
  shows "\<exists>r. r \<noteq> 0 \<and> (\<forall>m1 m2. strcmp_natural (d1 @ NUL # m1) (d2 @ NUL # m2) = Inr r)"
proof (cases d1)
  case Nil
  with assms obtain y ys where "d2 = y # ys" "y \<noteq> NUL" by (cases d2) auto
  with Nil show ?thesis by (auto simp: strcmp_natural_def Let_def uc_pos tolower_pos)
next
  case (Cons x xs)
  note d1 = this
  show ?thesis
  proof (cases d2)
    case Nil
    with d1 assms show ?thesis by (auto simp: strcmp_natural_def Let_def)
  next
    case (Cons y ys)
    have "strcmp_natural_while 0 (d1 @ NUL # m1) (d2 @ NUL # m2) =
        strcmp_natural (d1 @ NUL # m1) (d2 @ NUL # m2)" for m1 m2
      using d1 Cons assms by (auto simp: strcmp_natural_def)
    with strcmp_natural_while_differ [OF assms(1,2), of 0] assms(3) show ?thesis by auto
  qed
qed

lemma base_differ:
  assumes "base = strcmp_default \<or> base = strcmp_natural \<or> base = strcmp"
    and "NUL \<notin> set d1" "NUL \<notin> set d2" "d1 \<noteq> d2"
  shows "\<exists>r. r \<noteq> 0 \<and> (\<forall>m1 m2. base (d1 @ NUL # m1) (d2 @ NUL # m2) = Inr r)"
  using assms(1)
proof (elim disjE)
  assume "base = strcmp_default"
  with strcmp_default_differ [OF assms(2-4)] show ?thesis by simp
next
  assume "base = strcmp_natural"
  with strcmp_natural_differ [OF assms(2-4)] show ?thesis by simp
next
  assume "base = strcmp"
  with strcmp_differ [OF assms(2-4)] show ?thesis by simp
qed

lemma get_compar_fn_base:
  "get_compar_fn coll sort_method = Some compar \<Longrightarrow>
   compar = qsort_compar (case sort_method of
        FL_SORT_DEFAULT \<Rightarrow> strcmp_default | FL_SORT_NATURAL \<Rightarrow> strcmp_natural
      | FL_SORT_COLLATE \<Rightarrow> coll | _ \<Rightarrow> strcmp)"
  by (cases sort_method)
    (auto simp: fun_eq_iff qsort_compar_default_def qsort_compar_natural_def
      qsort_compar_collate_def qsort_compar_ascii_def)

text \<open>
  Two paths whose directory parts are different strings are not always ordered by their
  directory parts. With the locale method the base comparator is \<open>strcoll\<close>, which may
  tie on different strings; under the collation \<open>strcoll_no_hyphen\<close> the directory parts
  \<open>co-op\<close> and \<open>coop\<close> tie, and the basenames decide: \<open>co-op/a\<close> sorts before \<open>coop/b\<close>,
  and \<open>co-op/b\<close> behind \<open>coop/a\<close>.
\<close>

theorem qsort_compar_collate_ties_on_directories:
  "get_compar_fn strcoll_no_hyphen FL_SORT_COLLATE =
     Some (qsort_compar_collate strcoll_no_hyphen)
   \<and> ''co-op'' \<noteq> ''coop''
   \<and> strcoll_no_hyphen (''co-op'' @ [NUL]) (''coop'' @ [NUL]) = Inr 0
   \<and> qsort_compar_collate strcoll_no_hyphen ''co-op/a'' ''coop/b'' = Inr (- 1)
   \<and> qsort_compar_collate strcoll_no_hyphen ''co-op/b'' ''coop/a'' = Inr 1"
  by (simp add: qsort_compar_collate_def qsort_compar_def strcoll_no_hyphen_def NUL_def
      DIR_SEPARATOR_def uc_def)

text \<open>
  C5, where the base comparator does not tie on the directory parts. Let the two paths
  be \<open>d1/b1\<close> and \<open>d2/b2\<close>, split at their last separators. The callback of every sort
  method first calls the base comparator of the method on the two directory parts, each
  terminated in place where its separator was, and returns that result when it is not
  zero; it calls the base comparator on the two basenames only when the directory parts
  tie. Hence for every sort method, where the base comparator gives a result other than
  zero on the directory parts, the two paths are ordered as the directory parts alone
  are, whatever the basenames. The default, natural and ASCII comparators never tie on
  different directory parts (without \<open>NUL\<close>).
\<close>

theorem qsort_compar_hierarchical:
  assumes "get_compar_fn coll sort_method = Some compar"
    and "DIR_SEPARATOR \<notin> set b1" and "DIR_SEPARATOR \<notin> set b2"
  shows "\<exists>base.
      base = (case sort_method of
                FL_SORT_DEFAULT \<Rightarrow> strcmp_default | FL_SORT_NATURAL \<Rightarrow> strcmp_natural
              | FL_SORT_COLLATE \<Rightarrow> coll | _ \<Rightarrow> strcmp)
    \<and> compar (d1 @ DIR_SEPARATOR # b1) (d2 @ DIR_SEPARATOR # b2) =
        (case base (d1 @ NUL # b1 @ [NUL]) (d2 @ NUL # b2 @ [NUL]) of
           Inl e \<Rightarrow> Inl e
         | Inr result \<Rightarrow>
             if result = 0 then base (b1 @ [NUL]) (b2 @ [NUL]) else Inr result)
    \<and> (\<forall>r. r \<noteq> 0 \<and> (\<forall>m1 m2. base (d1 @ NUL # m1) (d2 @ NUL # m2) = Inr r) \<longrightarrow>
          (\<forall>c1 c2. DIR_SEPARATOR \<notin> set c1 \<longrightarrow> DIR_SEPARATOR \<notin> set c2 \<longrightarrow>
             compar (d1 @ DIR_SEPARATOR # c1) (d2 @ DIR_SEPARATOR # c2) = Inr r))
    \<and> (sort_method \<noteq> FL_SORT_COLLATE \<longrightarrow> NUL \<notin> set d1 \<longrightarrow> NUL \<notin> set d2 \<longrightarrow> d1 \<noteq> d2 \<longrightarrow>
        (\<exists>r. r \<noteq> 0 \<and> (\<forall>m1 m2. base (d1 @ NUL # m1) (d2 @ NUL # m2) = Inr r)
           \<and> (\<forall>c1 c2. DIR_SEPARATOR \<notin> set c1 \<longrightarrow> DIR_SEPARATOR \<notin> set c2 \<longrightarrow>
                 compar (d1 @ DIR_SEPARATOR # c1) (d2 @ DIR_SEPARATOR # c2) = Inr r)))"
proof -
  define base where "base = (case sort_method of
      FL_SORT_DEFAULT \<Rightarrow> strcmp_default | FL_SORT_NATURAL \<Rightarrow> strcmp_natural
    | FL_SORT_COLLATE \<Rightarrow> coll | _ \<Rightarrow> strcmp)"
  have ord: "compar = qsort_compar base"
    using get_compar_fn_base [OF assms(1)] by (simp add: base_def)
  have split: "compar (d1 @ DIR_SEPARATOR # c1) (d2 @ DIR_SEPARATOR # c2) =
        (case base (d1 @ NUL # c1 @ [NUL]) (d2 @ NUL # c2 @ [NUL]) of
           Inl e \<Rightarrow> Inl e
         | Inr result \<Rightarrow>
             if result = 0 then base (c1 @ [NUL]) (c2 @ [NUL]) else Inr result)"
    if "DIR_SEPARATOR \<notin> set c1" "DIR_SEPARATOR \<notin> set c2" for c1 c2
    unfolding ord using that by (rule qsort_compar_split)
  have decided: "compar (d1 @ DIR_SEPARATOR # c1) (d2 @ DIR_SEPARATOR # c2) = Inr r"
    if "r \<noteq> 0" "\<forall>m1 m2. base (d1 @ NUL # m1) (d2 @ NUL # m2) = Inr r"
      "DIR_SEPARATOR \<notin> set c1" "DIR_SEPARATOR \<notin> set c2" for r c1 c2
    using split [OF that(3,4)] that(1,2) by simp
  have "\<exists>r. r \<noteq> 0 \<and> (\<forall>m1 m2. base (d1 @ NUL # m1) (d2 @ NUL # m2) = Inr r)
           \<and> (\<forall>c1 c2. DIR_SEPARATOR \<notin> set c1 \<longrightarrow> DIR_SEPARATOR \<notin> set c2 \<longrightarrow>
                 compar (d1 @ DIR_SEPARATOR # c1) (d2 @ DIR_SEPARATOR # c2) = Inr r)"
    if "sort_method \<noteq> FL_SORT_COLLATE" "NUL \<notin> set d1" "NUL \<notin> set d2" "d1 \<noteq> d2"
  proof -
    from assms(1) that(1) have "base = strcmp_default \<or> base = strcmp_natural \<or> base = strcmp"
      by (cases sort_method) (auto simp: base_def)
    from base_differ [OF this that(2-4)] obtain r where
      r: "r \<noteq> 0" "\<forall>m1 m2. base (d1 @ NUL # m1) (d2 @ NUL # m2) = Inr r" by blast
    with decided [OF r] show ?thesis by blast
  qed
  moreover have "\<forall>r. r \<noteq> 0 \<and> (\<forall>m1 m2. base (d1 @ NUL # m1) (d2 @ NUL # m2) = Inr r) \<longrightarrow>
          (\<forall>c1 c2. DIR_SEPARATOR \<notin> set c1 \<longrightarrow> DIR_SEPARATOR \<notin> set c2 \<longrightarrow>
             compar (d1 @ DIR_SEPARATOR # c1) (d2 @ DIR_SEPARATOR # c2) = Inr r)"
    using decided by blast
  ultimately show ?thesis using split [OF assms(2,3)] unfolding base_def by blast
qed

theorem qsort_compar_hierarchical_witness:
  "get_compar_fn strcmp FL_SORT_NATURAL = Some qsort_compar_natural
   \<and> DIR_SEPARATOR \<notin> set ''x10'' \<and> DIR_SEPARATOR \<notin> set ''x9''
   \<and> NUL \<notin> set ''r/a1'' \<and> NUL \<notin> set ''r/a02'' \<and> ''r/a1'' \<noteq> ''r/a02''
   \<and> strcmp_natural (''r/a1'' @ [NUL]) (''r/a02'' @ [NUL]) = Inr (- 1)
   \<and> strcmp_natural (''x10'' @ [NUL]) (''x9'' @ [NUL]) = Inr 1
   \<and> qsort_compar_natural ''r/a1/x10'' ''r/a02/x9'' = Inr (- 1)
   \<and> get_compar_fn strcoll_no_hyphen FL_SORT_COLLATE =
       Some (qsort_compar_collate strcoll_no_hyphen)
   \<and> DIR_SEPARATOR \<notin> set ''z'' \<and> DIR_SEPARATOR \<notin> set ''a''
   \<and> (- 1 :: int) \<noteq> 0
   \<and> (\<forall>m1 m2. strcoll_no_hyphen (''co-op'' @ NUL # m1) (''cop'' @ NUL # m2) = Inr (- 1))
   \<and> strcoll_no_hyphen (''z'' @ [NUL]) (''a'' @ [NUL]) = Inr 25
   \<and> qsort_compar_collate strcoll_no_hyphen ''co-op/z'' ''cop/a'' = Inr (- 1)"
proof -
  have g: "get_compar_fn strcmp FL_SORT_NATURAL = Some qsort_compar_natural" by simp
  have s: "DIR_SEPARATOR \<notin> set ''x10''" "DIR_SEPARATOR \<notin> set ''x9''"
    by (simp_all add: DIR_SEPARATOR_def)
  have n: "NUL \<notin> set ''r/a1''" "NUL \<notin> set ''r/a02''" "''r/a1'' \<noteq> ''r/a02''"
    by (simp_all add: NUL_def)
  have v: "strcmp_natural (''r/a1'' @ [NUL]) (''r/a02'' @ [NUL]) = Inr (- 1)"
    by (simp add: strcmp_natural_def NUL_def uc_def isdigit_def tolower_def digit_run_def
        after_digits_def)
  have w: "strcmp_natural (''x10'' @ [NUL]) (''x9'' @ [NUL]) = Inr 1"
    by (simp add: strcmp_natural_def NUL_def uc_def isdigit_def tolower_def digit_run_def
        after_digits_def)
  have "\<exists>r. r \<noteq> 0 \<and> (\<forall>m1 m2. strcmp_natural (''r/a1'' @ NUL # m1) (''r/a02'' @ NUL # m2) = Inr r)
      \<and> (\<forall>c1 c2. DIR_SEPARATOR \<notin> set c1 \<longrightarrow> DIR_SEPARATOR \<notin> set c2 \<longrightarrow>
            qsort_compar_natural (''r/a1'' @ DIR_SEPARATOR # c1) (''r/a02'' @ DIR_SEPARATOR # c2) = Inr r)"
    using qsort_compar_hierarchical [OF g s, of "''r/a1''" "''r/a02''"] n by simp
  then obtain r where r: "\<And>m1 m2. strcmp_natural (''r/a1'' @ NUL # m1) (''r/a02'' @ NUL # m2) = Inr r"
    "\<And>c1 c2. DIR_SEPARATOR \<notin> set c1 \<Longrightarrow> DIR_SEPARATOR \<notin> set c2 \<Longrightarrow>
       qsort_compar_natural (''r/a1'' @ DIR_SEPARATOR # c1) (''r/a02'' @ DIR_SEPARATOR # c2) = Inr r"
    by (elim exE conjE) simp
  from r(1) [of "[]" "[]"] v have "r = - 1" by simp
  with r(2) [OF s] have p: "qsort_compar_natural ''r/a1/x10'' ''r/a02/x9'' = Inr (- 1)"
    by (simp add: DIR_SEPARATOR_def)
  have gc: "get_compar_fn strcoll_no_hyphen FL_SORT_COLLATE =
      Some (qsort_compar_collate strcoll_no_hyphen)" by simp
  have sc: "DIR_SEPARATOR \<notin> set ''z''" "DIR_SEPARATOR \<notin> set ''a''"
    by (simp_all add: DIR_SEPARATOR_def)
  have d: "(- 1 :: int) \<noteq> 0" by simp
  have t: "\<forall>m1 m2. strcoll_no_hyphen (''co-op'' @ NUL # m1) (''cop'' @ NUL # m2) = Inr (- 1)"
    by (simp add: strcoll_no_hyphen_def NUL_def uc_def)
  have b: "strcoll_no_hyphen (''z'' @ [NUL]) (''a'' @ [NUL]) = Inr 25"
    by (simp add: strcoll_no_hyphen_def NUL_def uc_def)
  have "\<forall>r. r \<noteq> 0 \<and> (\<forall>m1 m2. strcoll_no_hyphen (''co-op'' @ NUL # m1) (''cop'' @ NUL # m2) = Inr r) \<longrightarrow>
          (\<forall>c1 c2. DIR_SEPARATOR \<notin> set c1 \<longrightarrow> DIR_SEPARATOR \<notin> set c2 \<longrightarrow>
             qsort_compar_collate strcoll_no_hyphen (''co-op'' @ DIR_SEPARATOR # c1)
               (''cop'' @ DIR_SEPARATOR # c2) = Inr r)"
    using qsort_compar_hierarchical [OF gc sc, of "''co-op''" "''cop''"] by simp
  with d t sc have "qsort_compar_collate strcoll_no_hyphen (''co-op'' @ DIR_SEPARATOR # ''z'')
               (''cop'' @ DIR_SEPARATOR # ''a'') = Inr (- 1)"
    by blast
  then have q: "qsort_compar_collate strcoll_no_hyphen ''co-op/z'' ''cop/a'' = Inr (- 1)"
    by (simp add: DIR_SEPARATOR_def)
  show ?thesis
    by (intro conjI) (fact g s n v w p gc sc d t b q)+
qed

subsection \<open>The default comparator\<close>

lemma strcmp_default_while_less:
  assumes "NUL \<notin> set s1" "NUL \<notin> set s2"
    and "map (\<lambda>c. tolower (uc c)) s1 < map (\<lambda>c. tolower (uc c)) s2"
  shows "\<exists>r. r < 0 \<and> (\<forall>m1 m2. strcmp_default_while t (s1 @ NUL # m1) (s2 @ NUL # m2) = Inr r)"
  using assms
proof (induction s1 arbitrary: s2 t)
  case Nil
  then obtain y ys where "s2 = y # ys" "y \<noteq> NUL" by (cases s2) auto
  then show ?case by (auto simp: uc_pos)
next
  case (Cons x xs)
  then obtain y ys where s2: "s2 = y # ys" by (cases s2) auto
  with Cons.prems have nz: "x \<noteq> NUL" "y \<noteq> NUL" "NUL \<notin> set xs" "NUL \<notin> set ys" by auto
  from Cons.prems(3) s2 have lt: "tolower (uc x) < tolower (uc y) \<or>
      tolower (uc x) = tolower (uc y) \<and> map (\<lambda>c. tolower (uc c)) xs < map (\<lambda>c. tolower (uc c)) ys"
    by simp
  show ?case
  proof (cases "tolower (uc x) = tolower (uc y)")
    case True
    with lt have "map (\<lambda>c. tolower (uc c)) xs < map (\<lambda>c. tolower (uc c)) ys" by simp
    from Cons.IH [OF nz(3,4) this] have
      "\<exists>r. r < 0 \<and> (\<forall>m1 m2. strcmp_default_while t' (xs @ NUL # m1) (ys @ NUL # m2) = Inr r)" for t'
      by blast
    from this [of t] this [of "if t = 0 then uc y - uc x else t"] True nz s2 show ?thesis
      by (cases "x = y") (auto simp: Let_def)
  next
    case False
    with lt have "tolower (uc x) < tolower (uc y)" "x \<noteq> y" by auto
    with False nz s2 show ?thesis by (auto simp: Let_def)
  qed
qed

lemma strcmp_default_while_greater:
  assumes "NUL \<notin> set s1" "NUL \<notin> set s2"
    and "map (\<lambda>c. tolower (uc c)) s2 < map (\<lambda>c. tolower (uc c)) s1"
  shows "\<exists>r. 0 < r \<and> (\<forall>m1 m2. strcmp_default_while t (s1 @ NUL # m1) (s2 @ NUL # m2) = Inr r)"
  using assms
proof (induction s2 arbitrary: s1 t)
  case Nil
  then obtain x xs where "s1 = x # xs" "x \<noteq> NUL" by (cases s1) auto
  then show ?case by (auto simp: uc_pos)
next
  case (Cons y ys)
  then obtain x xs where s1: "s1 = x # xs" by (cases s1) auto
  with Cons.prems have nz: "x \<noteq> NUL" "y \<noteq> NUL" "NUL \<notin> set xs" "NUL \<notin> set ys" by auto
  from Cons.prems(3) s1 have lt: "tolower (uc y) < tolower (uc x) \<or>
      tolower (uc y) = tolower (uc x) \<and> map (\<lambda>c. tolower (uc c)) ys < map (\<lambda>c. tolower (uc c)) xs"
    by simp
  show ?case
  proof (cases "tolower (uc x) = tolower (uc y)")
    case True
    with lt have "map (\<lambda>c. tolower (uc c)) ys < map (\<lambda>c. tolower (uc c)) xs" by simp
    from Cons.IH [OF nz(3,4) this] have
      "\<exists>r. 0 < r \<and> (\<forall>m1 m2. strcmp_default_while t' (xs @ NUL # m1) (ys @ NUL # m2) = Inr r)" for t'
      by blast
    from this [of t] this [of "if t = 0 then uc y - uc x else t"] True nz s1 show ?thesis
      by (cases "x = y") (auto simp: Let_def)
  next
    case False
    with lt have "tolower (uc y) < tolower (uc x)" "x \<noteq> y" by auto
    with False nz s1 show ?thesis by (auto simp: Let_def)
  qed
qed

lemma strcmp_default_while_tie:
  assumes "NUL \<notin> set s1" "NUL \<notin> set s2"
    and "map (\<lambda>c. tolower (uc c)) s1 = map (\<lambda>c. tolower (uc c)) s2"
  shows "\<exists>r. (\<forall>m1 m2. strcmp_default_while t (s1 @ NUL # m1) (s2 @ NUL # m2) = Inr r)
      \<and> (t \<noteq> 0 \<longrightarrow> r = t)
      \<and> (t = 0 \<longrightarrow> (s1 = s2 \<longrightarrow> r = 0)
            \<and> (\<forall>i < length s1. take i s1 = take i s2 \<longrightarrow> s1 ! i \<noteq> s2 ! i \<longrightarrow>
                  r = uc (s2 ! i) - uc (s1 ! i)))"
  using assms
proof (induction s1 arbitrary: s2 t)
  case Nil
  then show ?case by auto
next
  case (Cons x xs)
  then obtain y ys where s2: "s2 = y # ys" by (cases s2) auto
  with Cons.prems have nz: "x \<noteq> NUL" "y \<noteq> NUL" "NUL \<notin> set xs" "NUL \<notin> set ys" by auto
  from Cons.prems(3) s2 have eq: "tolower (uc x) = tolower (uc y)"
    "map (\<lambda>c. tolower (uc c)) xs = map (\<lambda>c. tolower (uc c)) ys" by auto
  show ?case
  proof (cases "x = y")
    case True
    from Cons.IH [OF nz(3,4) eq(2), of t] obtain r where
      r: "\<And>m1 m2. strcmp_default_while t (xs @ NUL # m1) (ys @ NUL # m2) = Inr r"
      "t \<noteq> 0 \<longrightarrow> r = t" "t = 0 \<longrightarrow> xs = ys \<longrightarrow> r = 0"
      "\<And>i. t = 0 \<Longrightarrow> i < length xs \<Longrightarrow> take i xs = take i ys \<Longrightarrow> xs ! i \<noteq> ys ! i \<Longrightarrow>
          r = uc (ys ! i) - uc (xs ! i)"
      by blast
    have "r = uc (s2 ! i) - uc ((x # xs) ! i)"
      if "t = 0" "i < length (x # xs)" "take i (x # xs) = take i s2" "(x # xs) ! i \<noteq> s2 ! i" for i
      using that r(4) [of "i - 1"] True s2 by (cases i) auto
    with r(1-3) True nz s2 show ?thesis by auto
  next
    case False
    let ?t = "if t = 0 then uc y - uc x else t"
    from False have t: "?t \<noteq> 0" by auto
    from Cons.IH [OF nz(3,4) eq(2), of ?t] t obtain r where
      r: "\<And>m1 m2. strcmp_default_while ?t (xs @ NUL # m1) (ys @ NUL # m2) = Inr r" "r = ?t"
      by blast
    have "r = uc (s2 ! i) - uc ((x # xs) ! i)"
      if "t = 0" "i < length (x # xs)" "take i (x # xs) = take i s2" "(x # xs) ! i \<noteq> s2 ! i" for i
      using that r(2) False s2 by (cases i) auto
    with r False eq(1) nz s2 show ?thesis by (auto simp: Let_def)
  qed
qed

lemma strcmp_default_nonempty:
  assumes "s1 \<noteq> []" "s2 \<noteq> []" "NUL \<notin> set s1" "NUL \<notin> set s2"
  shows "strcmp_default (s1 @ NUL # m1) (s2 @ NUL # m2) =
      strcmp_default_while 0 (s1 @ NUL # m1) (s2 @ NUL # m2)"
  using assms by (cases s1; cases s2) (auto simp: strcmp_default_def)

lemma tolower_variant:
  assumes "tolower x = tolower y" "x \<noteq> y" "tolower x = x"
  shows "y < x"
  using assms by (auto simp: tolower_def split: if_splits)


lemma less_append_nonempty: "e \<noteq> [] \<Longrightarrow> (xs :: int list) < xs @ e"
  by (induction xs) (auto simp: neq_Nil_conv)

lemma fold_prefix_less:
  "e \<noteq> [] \<Longrightarrow> map (\<lambda>c. tolower (uc c)) s < map (\<lambda>c. tolower (uc c)) (s @ e)"
  using less_append_nonempty [of "map (\<lambda>c. tolower (uc c)) e" "map (\<lambda>c. tolower (uc c)) s"]
  by simp

text \<open>
  C6. For two non-empty strings without \<open>NUL\<close>, \<open>strcmp_default\<close> returns a result, the
  same whatever lies behind the terminators, and orders case-insensitively: where the
  strings folded to lower case differ, the sign of the result is the order of the folded
  strings (bytewise, a proper prefix first). Where the folded strings are equal and the
  strings differ first at position \<open>i\<close>, the string that holds the lowercase variant at
  \<open>i\<close> sorts first, so \<open>FILE\<close>, \<open>file\<close> sorts to \<open>file\<close>, \<open>FILE\<close>. A string that is a proper
  prefix of the other sorts first, and equal strings tie.
\<close>

theorem strcmp_default_order:
  assumes "s1 \<noteq> []" and "s2 \<noteq> []" and "NUL \<notin> set s1" and "NUL \<notin> set s2"
  shows "\<exists>r. (\<forall>m1 m2. strcmp_default (s1 @ NUL # m1) (s2 @ NUL # m2) = Inr r)
    \<and> (map (\<lambda>c. tolower (uc c)) s1 < map (\<lambda>c. tolower (uc c)) s2 \<longrightarrow> r < 0)
    \<and> (map (\<lambda>c. tolower (uc c)) s2 < map (\<lambda>c. tolower (uc c)) s1 \<longrightarrow> 0 < r)
    \<and> (map (\<lambda>c. tolower (uc c)) s1 = map (\<lambda>c. tolower (uc c)) s2 \<longrightarrow>
          (s1 = s2 \<longrightarrow> r = 0)
        \<and> (\<forall>i < length s1. take i s1 = take i s2 \<longrightarrow> s1 ! i \<noteq> s2 ! i \<longrightarrow>
              (tolower (uc (s1 ! i)) = uc (s1 ! i) \<longrightarrow> r < 0)
            \<and> (tolower (uc (s2 ! i)) = uc (s2 ! i) \<longrightarrow> 0 < r)))
    \<and> (\<forall>e. e \<noteq> [] \<longrightarrow> s2 = s1 @ e \<longrightarrow> r < 0)
    \<and> (\<forall>e. e \<noteq> [] \<longrightarrow> s1 = s2 @ e \<longrightarrow> 0 < r)
    \<and> qsort (\<lambda>a b. strcmp_default (a @ [NUL]) (b @ [NUL])) [''FILE'', ''file''] =
        Inr [''file'', ''FILE'']
    \<and> qsort qsort_compar_default [''d/FILE'', ''d/file''] = Inr [''d/file'', ''d/FILE'']"
proof -
  let ?f = "map (\<lambda>c. tolower (uc c))"
  note start = strcmp_default_nonempty [OF assms]
  have ex1: "qsort (\<lambda>a b. strcmp_default (a @ [NUL]) (b @ [NUL])) [''FILE'', ''file''] =
      Inr [''file'', ''FILE'']"
    by (simp add: strcmp_default_def NUL_def uc_def tolower_def)
  have ex2: "qsort qsort_compar_default [''d/FILE'', ''d/file''] = Inr [''d/file'', ''d/FILE'']"
    by (simp add: qsort_compar_default_def qsort_compar_def DIR_SEPARATOR_def
        strcmp_default_def NUL_def uc_def tolower_def)
  consider (less) "?f s1 < ?f s2" | (greater) "?f s2 < ?f s1" | (tie) "?f s1 = ?f s2"
    by (rule linorder_cases)
  then show ?thesis
  proof cases
    case less
    from strcmp_default_while_less [OF assms(3,4) less, of 0] obtain r where
      r: "r < 0" "\<And>m1 m2. strcmp_default (s1 @ NUL # m1) (s2 @ NUL # m2) = Inr r"
      unfolding start by blast
    have "\<not> ?f s2 < ?f s1" "?f s1 \<noteq> ?f s2" using less by auto
    moreover have "s1 \<noteq> s2 @ e" if "e \<noteq> []" for e
      using fold_prefix_less [OF that, of s2] less by auto
    ultimately show ?thesis using r ex1 ex2 by (intro exI [of _ r]) simp
  next
    case greater
    from strcmp_default_while_greater [OF assms(3,4) greater, of 0] obtain r where
      r: "0 < r" "\<And>m1 m2. strcmp_default (s1 @ NUL # m1) (s2 @ NUL # m2) = Inr r"
      unfolding start by blast
    have "\<not> ?f s1 < ?f s2" "?f s1 \<noteq> ?f s2" using greater by auto
    moreover have "s2 \<noteq> s1 @ e" if "e \<noteq> []" for e
      using fold_prefix_less [OF that, of s1] greater by auto
    ultimately show ?thesis using r ex1 ex2 by (intro exI [of _ r]) simp
  next
    case tie
    from strcmp_default_while_tie [OF assms(3,4) tie, of 0] obtain r where
      r: "\<And>m1 m2. strcmp_default (s1 @ NUL # m1) (s2 @ NUL # m2) = Inr r"
      "s1 = s2 \<longrightarrow> r = 0"
      "\<And>i. i < length s1 \<Longrightarrow> take i s1 = take i s2 \<Longrightarrow> s1 ! i \<noteq> s2 ! i \<Longrightarrow>
          r = uc (s2 ! i) - uc (s1 ! i)"
      unfolding start by auto
    have len: "length s1 = length s2" using tie by (metis length_map)
    have variant: "(tolower (uc (s1 ! i)) = uc (s1 ! i) \<longrightarrow> r < 0)
        \<and> (tolower (uc (s2 ! i)) = uc (s2 ! i) \<longrightarrow> 0 < r)"
      if "i < length s1" "take i s1 = take i s2" "s1 ! i \<noteq> s2 ! i" for i
    proof -
      from tie that(1) len have "tolower (uc (s1 ! i)) = tolower (uc (s2 ! i))"
        by (metis nth_map)
      moreover from that(3) have "uc (s1 ! i) \<noteq> uc (s2 ! i)" by simp
      ultimately show ?thesis
        using r(3) [OF that] tolower_variant [of "uc (s1 ! i)" "uc (s2 ! i)"]
          tolower_variant [of "uc (s2 ! i)" "uc (s1 ! i)"]
        by auto
    qed
    have "\<not> ?f s1 < ?f s2" "\<not> ?f s2 < ?f s1" using tie by auto
    moreover have "s2 \<noteq> s1 @ e" "s1 \<noteq> s2 @ e" if "e \<noteq> []" for e
      using len that by auto
    ultimately show ?thesis using r(1,2) variant ex1 ex2 by (intro exI [of _ r]) simp
  qed
qed

theorem strcmp_default_order_witness:
  "''FILE'' \<noteq> [] \<and> ''file'' \<noteq> [] \<and> NUL \<notin> set ''FILE'' \<and> NUL \<notin> set ''file''
   \<and> (\<exists>r. 0 < r \<and> (\<forall>m1 m2. strcmp_default (''FILE'' @ NUL # m1) (''file'' @ NUL # m2) = Inr r))"
proof -
  have h: "''FILE'' \<noteq> []" "''file'' \<noteq> []" "NUL \<notin> set ''FILE''" "NUL \<notin> set ''file''"
    by (simp_all add: NUL_def)
  have fold: "map (\<lambda>c. tolower (uc c)) ''FILE'' = map (\<lambda>c. tolower (uc c)) ''file''"
    by (simp add: tolower_def uc_def)
  from strcmp_default_order [OF h] obtain r where
    r: "\<And>m1 m2. strcmp_default (''FILE'' @ NUL # m1) (''file'' @ NUL # m2) = Inr r"
    "map (\<lambda>c. tolower (uc c)) ''FILE'' = map (\<lambda>c. tolower (uc c)) ''file'' \<longrightarrow>
      (\<forall>i < length ''FILE''. take i ''FILE'' = take i ''file'' \<longrightarrow> ''FILE'' ! i \<noteq> ''file'' ! i \<longrightarrow>
          (tolower (uc (''file'' ! i)) = uc (''file'' ! i) \<longrightarrow> 0 < r))"
    by (elim exE conjE) simp
  from r(2) fold have "0 < length ''FILE'' \<longrightarrow> take 0 ''FILE'' = take 0 ''file'' \<longrightarrow>
      ''FILE'' ! 0 \<noteq> ''file'' ! 0 \<longrightarrow> tolower (uc (''file'' ! 0)) = uc (''file'' ! 0) \<longrightarrow> 0 < r"
    by blast
  then have "0 < r" by (simp add: tolower_def uc_def)
  with r(1) h show ?thesis by blast
qed

subsection \<open>The natural comparator\<close>

lemma isdigit_range: "isdigit (uc c) \<Longrightarrow> 0 \<le> uc c - 48 \<and> uc c - 48 \<le> 9"
  by (simp add: isdigit_def)

lemma decimal_bounds:
  "\<forall>c \<in> set z. isdigit (uc c) \<Longrightarrow> 0 \<le> decimal z \<and> decimal z < 10 ^ length z"
proof (induction z)
  case Nil
  then show ?case by simp
next
  case (Cons c z)
  then have ih: "0 \<le> decimal z" "decimal z < 10 ^ length z" by auto
  from Cons.prems have d: "0 \<le> uc c - 48" "uc c - 48 \<le> 9" using isdigit_range by auto
  define A where "A = (uc c - 48) * 10 ^ length z"
  define K :: int where "K = 10 ^ length z"
  have "A \<le> 9 * K"
    unfolding A_def K_def using d(2) by (intro mult_right_mono) auto
  moreover have "0 \<le> A" unfolding A_def using d(1) by simp
  moreover have "decimal (c # z) = A + decimal z" "(10 :: int) ^ length (c # z) = 10 * K"
    by (simp_all add: A_def K_def)
  ultimately show ?case using ih unfolding K_def [symmetric] by linarith
qed

lemma decimal_skip_zeroes: "decimal (skip_zeroes z) = decimal z"
  by (induction z rule: skip_zeroes.induct) (auto simp: uc_def)

lemma skip_zeroes_nonempty: "z \<noteq> [] \<Longrightarrow> skip_zeroes z \<noteq> []"
  by (induction z rule: skip_zeroes.induct) auto

lemma set_skip_zeroes: "set (skip_zeroes z) \<subseteq> set z"
  by (induction z rule: skip_zeroes.induct) auto

lemma skip_zeroes_leading:
  "skip_zeroes z = c # d # p \<Longrightarrow> c \<noteq> CHR ''0''"
  by (induction z rule: skip_zeroes.induct) (auto split: if_splits)

lemma decimal_lower:
  assumes "\<forall>c \<in> set z. isdigit (uc c)" "skip_zeroes z = c # d # p"
  shows "10 ^ (length (skip_zeroes z) - 1) \<le> decimal z"
proof -
  from assms(2) have c0: "c \<noteq> CHR ''0''" by (rule skip_zeroes_leading)
  from assms set_skip_zeroes [of z] have dig: "\<forall>x \<in> set (c # d # p). isdigit (uc x)" by auto
  then have "isdigit (uc c)" by simp
  moreover from c0 have "uc c \<noteq> 48" using uc_eq_iff [of c "CHR ''0''"] by (simp add: uc_def)
  ultimately have "1 \<le> uc c - 48" by (simp add: isdigit_def)
  define A where "A = (uc c - 48) * 10 ^ length (d # p)"
  define K :: int where "K = 10 ^ length (d # p)"
  have "1 * K \<le> A"
    unfolding A_def K_def using \<open>1 \<le> uc c - 48\<close> by (intro mult_right_mono) auto
  moreover from dig have "0 \<le> decimal (d # p)" using decimal_bounds [of "d # p"] by auto
  moreover have "decimal (c # d # p) = A + decimal (d # p)"
    by (simp add: A_def)
  ultimately have "K \<le> decimal (c # d # p)" by linarith
  with assms(2) decimal_skip_zeroes [of z] show ?thesis by (simp add: K_def)
qed

lemma decimal_shorter:
  assumes "\<forall>c \<in> set z1. isdigit (uc c)" "\<forall>c \<in> set z2. isdigit (uc c)" "z1 \<noteq> []"
    and "length (skip_zeroes z1) < length (skip_zeroes z2)"
  shows "decimal z1 < decimal z2"
proof -
  from assms(3) have "skip_zeroes z1 \<noteq> []" by (rule skip_zeroes_nonempty)
  with assms(4) obtain c d p where p2: "skip_zeroes z2 = c # d # p"
    by (cases "skip_zeroes z2"; cases "tl (skip_zeroes z2)") (auto simp: Suc_lessI)
  from assms(1) set_skip_zeroes [of z1] have "\<forall>c \<in> set (skip_zeroes z1). isdigit (uc c)" by auto
  from decimal_bounds [OF this] have "decimal z1 < 10 ^ length (skip_zeroes z1)"
    by (simp add: decimal_skip_zeroes)
  also have "\<dots> \<le> (10 :: int) ^ (length (skip_zeroes z2) - 1)"
    using assms(4) by (intro power_increasing) auto
  also have "\<dots> \<le> decimal z2" using decimal_lower [OF assms(2) p2] .
  finally show ?thesis .
qed

lemma compare_digits_decimal:
  assumes "\<forall>c \<in> set p1. isdigit (uc c)" "\<forall>c \<in> set p2. isdigit (uc c)" "length p1 = length p2"
    and "compare_digits p1 p2 = Some d"
  shows "(d < 0 \<longrightarrow> decimal p1 < decimal p2) \<and> (0 < d \<longrightarrow> decimal p2 < decimal p1) \<and> d \<noteq> 0"
  using assms
proof (induction p1 p2 rule: compare_digits.induct)
  case (1 x p1 y p2)
  show ?case
  proof (cases "x = y")
    case True
    with 1 show ?thesis by auto
  next
    case False
    with "1.prems" have d: "d = uc x - uc y" "d \<noteq> 0" by auto
    from "1.prems" have b1: "0 \<le> decimal p1" "decimal p1 < 10 ^ length p1"
      and b2: "0 \<le> decimal p2" "decimal p2 < 10 ^ length p2"
      using decimal_bounds [of p1] decimal_bounds [of p2] by auto
    from "1.prems" have len: "length p2 = length p1" by simp
    from False have ne: "uc x \<noteq> uc y" by simp
    define K :: int where "K = 10 ^ length p1"
    define A where "A = (uc x - 48) * K"
    define B where "B = (uc y - 48) * K"
    have dec: "decimal (x # p1) = A + decimal p1" "decimal (y # p2) = B + decimal p2"
      by (simp_all add: A_def B_def K_def len)
    have bnd: "decimal p1 < K" "decimal p2 < K" using b1 b2 by (simp_all add: K_def len)
    show ?thesis
    proof (cases "d < 0")
      case True
      then have "uc x - 48 + 1 \<le> uc y - 48" using d by simp
      then have "(uc x - 48 + 1) * K \<le> (uc y - 48) * K"
        unfolding K_def by (intro mult_right_mono) auto
      then have "A + K \<le> B"
        by (simp add: A_def B_def algebra_simps)
      with b1 b2 bnd True d(2) show ?thesis unfolding dec by linarith
    next
      case False
      with d ne have "uc y - 48 + 1 \<le> uc x - 48" by linarith
      then have "(uc y - 48 + 1) * K \<le> (uc x - 48) * K"
        unfolding K_def by (intro mult_right_mono) auto
      then have "B + K \<le> A"
        by (simp add: A_def B_def algebra_simps)
      with b1 b2 bnd False d(2) show ?thesis unfolding dec by linarith
    qed
  qed
qed auto


lemma digit_run_append:
  assumes "\<forall>c \<in> set z. isdigit (uc c)" "w \<noteq> []" "\<not> isdigit (uc (hd w))"
  shows "digit_run (z @ w) = z" and "after_digits (z @ w) = w"
  using assms by (cases w; simp add: digit_run_def after_digits_def takeWhile_append2
      dropWhile_append2)+

lemma compare_digits_refl [simp]: "compare_digits p p = None"
  by (induction p) auto

lemma strcmp_natural_do_runs:
  assumes "\<forall>c \<in> set z1. isdigit (uc c)" "\<forall>c \<in> set z2. isdigit (uc c)" "z1 \<noteq> []" "z2 \<noteq> []"
    and "w1 \<noteq> []" "w2 \<noteq> []" "\<not> isdigit (uc (hd w1))" "\<not> isdigit (uc (hd w2))"
  shows "strcmp_natural_do t (z1 @ w1) (z2 @ w2) =
      (if length (skip_zeroes z1) \<noteq> length (skip_zeroes z2)
       then Inr (int (length (skip_zeroes z1)) - int (length (skip_zeroes z2)))
       else case compare_digits (skip_zeroes z1) (skip_zeroes z2) of
              Some d \<Rightarrow> Inr d
            | None \<Rightarrow>
                if length z1 \<noteq> length z2 then Inr (int (length z2) - int (length z1))
                else strcmp_natural_while t w1 w2)"
proof -
  from assms(3,4) obtain a c1 b c2 where z: "z1 = a # c1" "z2 = b # c2"
    by (cases z1; cases z2) auto
  with assms(1,2) have c: "\<forall>c \<in> set c1. isdigit (uc c)" "\<forall>c \<in> set c2. isdigit (uc c)"
    and ab: "isdigit (uc a)" "isdigit (uc b)" by auto
  have "digit_run (a # c1 @ w1) = z1" "digit_run (b # c2 @ w2) = z2"
    using digit_run_append(1) [OF assms(1,5,7)] digit_run_append(1) [OF assms(2,6,8)] z
    by simp_all
  moreover have "after_digits (c1 @ w1) = w1" "after_digits (c2 @ w2) = w2"
    using digit_run_append(2) [OF c(1) assms(5,7)] digit_run_append(2) [OF c(2) assms(6,8)]
    by simp_all
  ultimately show ?thesis
    using ab assms(5,6) z by (simp add: Let_def split: option.splits)
qed

lemma strcmp_natural_do_runs_order:
  assumes "\<forall>c \<in> set z1. isdigit (uc c)" "\<forall>c \<in> set z2. isdigit (uc c)" "z1 \<noteq> []" "z2 \<noteq> []"
    and "w1 \<noteq> []" "w2 \<noteq> []" "\<not> isdigit (uc (hd w1))" "\<not> isdigit (uc (hd w2))"
  shows "(decimal z1 < decimal z2 \<longrightarrow> (\<exists>r. r < 0 \<and> strcmp_natural_do t (z1 @ w1) (z2 @ w2) = Inr r))
    \<and> (decimal z2 < decimal z1 \<longrightarrow> (\<exists>r. 0 < r \<and> strcmp_natural_do t (z1 @ w1) (z2 @ w2) = Inr r))
    \<and> (decimal z1 = decimal z2 \<and> length z2 < length z1 \<longrightarrow>
          (\<exists>r. r < 0 \<and> strcmp_natural_do t (z1 @ w1) (z2 @ w2) = Inr r))
    \<and> (decimal z1 = decimal z2 \<and> length z1 < length z2 \<longrightarrow>
          (\<exists>r. 0 < r \<and> strcmp_natural_do t (z1 @ w1) (z2 @ w2) = Inr r))
    \<and> (z1 = z2 \<longrightarrow> strcmp_natural_do t (z1 @ w1) (z2 @ w2) = strcmp_natural_while t w1 w2)"
proof -
  note eq = strcmp_natural_do_runs [OF assms, of t]
  let ?p1 = "skip_zeroes z1" and ?p2 = "skip_zeroes z2"
  have dig: "\<forall>c \<in> set ?p1. isdigit (uc c)" "\<forall>c \<in> set ?p2. isdigit (uc c)"
    using assms(1,2) set_skip_zeroes by blast+
  consider (shorter) "length ?p1 < length ?p2" | (longer) "length ?p2 < length ?p1"
    | (same) "length ?p1 = length ?p2" by linarith
  then show ?thesis
  proof cases
    case shorter
    from decimal_shorter [OF assms(1,2,3) shorter] shorter show ?thesis
      unfolding eq by auto
  next
    case longer
    from decimal_shorter [OF assms(2,1,4) longer] longer show ?thesis
      unfolding eq by auto
  next
    case same
    show ?thesis
    proof (cases "compare_digits ?p1 ?p2")
      case (Some d)
      from compare_digits_decimal [OF dig same Some] Some same show ?thesis
        unfolding eq by (auto simp: decimal_skip_zeroes)
    next
      case None
      with same have "?p1 = ?p2" by (rule compare_digits_None [rotated -1])
      then have "decimal z1 = decimal z2"
        using decimal_skip_zeroes [of z1] decimal_skip_zeroes [of z2] by simp
      with None same show ?thesis unfolding eq by auto
    qed
  qed
qed

lemma strcmp_natural_while_prefix:
  assumes "NUL \<notin> set p" "p = [] \<or> \<not> isdigit (uc (last p))"
  shows "strcmp_natural_while t (p @ a) (p @ b) = strcmp_natural_while t a b"
  using assms
proof (induction "length p" arbitrary: p rule: less_induct)
  case less
  show ?case
  proof (cases p)
    case Nil
    then show ?thesis by simp
  next
    case (Cons x q)
    with less.prems have x: "x \<noteq> NUL" and q: "NUL \<notin> set q" and l: "\<not> isdigit (uc (last p))"
      by auto
    show ?thesis
    proof (cases "isdigit (uc x)")
      case False
      from l Cons have "q = [] \<or> \<not> isdigit (uc (last q))" by (auto split: if_splits)
      from less.hyps [OF _ q this] Cons have "strcmp_natural_while t (q @ a) (q @ b) =
          strcmp_natural_while t a b" by simp
      with False x Cons show ?thesis by simp
    next
      case True
      define z where "z = digit_run p"
      define w where "w = after_digits p"
      have pzw: "p = z @ w" by (simp add: z_def w_def digit_run_after_digits)
      have zdig: "\<forall>c \<in> set z. isdigit (uc c)"
        unfolding z_def digit_run_def by (auto dest: set_takeWhileD)
      have znil: "z \<noteq> []" using True Cons by (simp add: z_def digit_run_def)
      have wnil: "w \<noteq> []"
      proof
        assume "w = []"
        with pzw znil have "last p \<in> set z" by simp
        with zdig l show False by blast
      qed
      have whd: "\<not> isdigit (uc (hd w))"
        using wnil unfolding w_def after_digits_def by (metis hd_dropWhile)
      have wa: "w @ a \<noteq> []" "w @ b \<noteq> []" "\<not> isdigit (uc (hd (w @ a)))" "\<not> isdigit (uc (hd (w @ b)))"
        using wnil whd by simp_all
      have "strcmp_natural_do t (z @ w @ a) (z @ w @ b) = strcmp_natural_while t (w @ a) (w @ b)"
        using strcmp_natural_do_runs_order [OF zdig zdig znil znil wa, of t] by simp
      moreover have "strcmp_natural_while t (p @ a) (p @ b) = strcmp_natural_do t (p @ a) (p @ b)"
        using Cons x by simp
      moreover have "strcmp_natural_while t (w @ a) (w @ b) = strcmp_natural_while t a b"
      proof (rule less.hyps)
        show "length w < length p" using pzw znil by simp
        show "NUL \<notin> set w" using less.prems(1) pzw by auto
        show "w = [] \<or> \<not> isdigit (uc (last w))" using l pzw wnil by simp
      qed
      ultimately show ?thesis using pzw by simp
    qed
  qed
qed

lemma strcmp_natural_is_default_left:
  assumes "\<forall>c \<in> set s. \<not> isdigit (uc c)"
  shows "strcmp_natural_while t (s @ NUL # m) b = strcmp_default_while t (s @ NUL # m) b"
  using assms
proof (induction s arbitrary: b t)
  case Nil
  then show ?case by (cases b) auto
next
  case (Cons x s)
  show ?case
  proof (cases b)
    case Nil
    then show ?thesis by simp
  next
    case (Cons y b')
    with Cons.prems Cons.IH show ?thesis by (auto simp: Let_def)
  qed
qed

lemma strcmp_natural_is_default_right:
  assumes "\<forall>c \<in> set s. \<not> isdigit (uc c)"
  shows "strcmp_natural_while t a (s @ NUL # m) = strcmp_default_while t a (s @ NUL # m)"
  using assms
proof (induction s arbitrary: a t)
  case Nil
  then show ?case by (cases a) auto
next
  case (Cons y s)
  show ?case
  proof (cases a)
    case Nil
    then show ?thesis by simp
  next
    case (Cons x a')
    with Cons.prems Cons.IH show ?thesis by (auto simp: Let_def)
  qed
qed

lemma strcmp_natural_nonempty:
  assumes "s1 \<noteq> []" "s2 \<noteq> []" "NUL \<notin> set s1" "NUL \<notin> set s2"
  shows "strcmp_natural (s1 @ NUL # m1) (s2 @ NUL # m2) =
      strcmp_natural_while 0 (s1 @ NUL # m1) (s2 @ NUL # m2)"
  using assms by (cases s1; cases s2) (auto simp: strcmp_natural_def)


lemma strcmp_natural_is_default:
  assumes "s1 \<noteq> []" "s2 \<noteq> []"
    and "(\<forall>c \<in> set s1. \<not> isdigit (uc c)) \<or> (\<forall>c \<in> set s2. \<not> isdigit (uc c))"
  shows "strcmp_natural (s1 @ [NUL]) (s2 @ [NUL]) = strcmp_default (s1 @ [NUL]) (s2 @ [NUL])"
proof -
  from assms(1,2) obtain x a y b where s: "s1 = x # a" "s2 = y # b"
    by (cases s1; cases s2) auto
  from assms(3) show ?thesis
  proof
    assume nd: "\<forall>c \<in> set s1. \<not> isdigit (uc c)"
    with s have "\<not> isdigit (uc x)" "\<forall>c \<in> set a. \<not> isdigit (uc c)" by auto
    with s strcmp_natural_is_default_left [of a _ "[]" "b @ [NUL]"] show ?thesis
      by (simp add: strcmp_natural_def strcmp_default_def Let_def)
  next
    assume nd: "\<forall>c \<in> set s2. \<not> isdigit (uc c)"
    with s have "\<not> isdigit (uc y)" "\<forall>c \<in> set b. \<not> isdigit (uc c)" by auto
    with s strcmp_natural_is_default_right [of b _ "a @ [NUL]" "[]"] show ?thesis
      by (simp add: strcmp_natural_def strcmp_default_def Let_def)
  qed
qed

lemma fold_digit_eq:
  assumes "tolower (uc x) = tolower (uc y)" "isdigit (uc x)"
  shows "x = y"
proof -
  from assms have "uc x = uc y" by (auto simp: tolower_def isdigit_def split: if_splits)
  then show ?thesis by simp
qed

lemma fold_digit_runs:
  "map (\<lambda>c. tolower (uc c)) p1 = map (\<lambda>c. tolower (uc c)) p2 \<Longrightarrow>
   digit_run p1 = digit_run p2
   \<and> map (\<lambda>c. tolower (uc c)) (after_digits p1) = map (\<lambda>c. tolower (uc c)) (after_digits p2)"
proof (induction p1 arbitrary: p2)
  case Nil
  then show ?case by simp
next
  case (Cons x q1)
  then obtain y q2 where p2: "p2 = y # q2" by (cases p2) auto
  with Cons.prems have eq: "tolower (uc x) = tolower (uc y)"
    "map (\<lambda>c. tolower (uc c)) q1 = map (\<lambda>c. tolower (uc c)) q2" by auto
  show ?case
  proof (cases "isdigit (uc x)")
    case True
    with eq(1) have "x = y" by (rule fold_digit_eq)
    with True Cons.IH [OF eq(2)] p2 show ?thesis
      by (simp add: digit_run_def after_digits_def)
  next
    case False
    have "\<not> isdigit (uc y)"
    proof
      assume "isdigit (uc y)"
      with eq(1) have "y = x" by (intro fold_digit_eq) simp_all
      with False \<open>isdigit (uc y)\<close> show False by simp
    qed
    with False p2 Cons.prems show ?thesis
      by (simp add: digit_run_def after_digits_def)
  qed
qed

lemma first_difference_behind:
  assumes "i < length (z @ v1)" "take i (z @ v1) = take i (z @ v2)" "(z @ v1) ! i \<noteq> (z @ v2) ! i"
  shows "\<exists>j. i = length z + j \<and> j < length v1 \<and> take j v1 = take j v2
    \<and> v1 ! j = (z @ v1) ! i \<and> v2 ! j = (z @ v2) ! i"
proof (cases "i < length z")
  case True
  with assms(3) show ?thesis by (simp add: nth_append)
next
  case False
  then obtain j where j: "i = length z + j" by (metis le_add_diff_inverse not_less)
  with assms show ?thesis by (intro exI [of _ j]) (simp add: nth_append)
qed

lemma strcmp_natural_while_tie_prefix:
  assumes "NUL \<notin> set p1" "NUL \<notin> set p2"
    and "map (\<lambda>c. tolower (uc c)) p1 = map (\<lambda>c. tolower (uc c)) p2"
    and "w1 \<noteq> []" "w2 \<noteq> []"
    and "p1 = [] \<or> \<not> isdigit (uc (last p1)) \<or> \<not> isdigit (uc (hd w1))"
    and "p2 = [] \<or> \<not> isdigit (uc (last p2)) \<or> \<not> isdigit (uc (hd w2))"
  shows "\<exists>t'. strcmp_natural_while t (p1 @ w1) (p2 @ w2) = strcmp_natural_while t' w1 w2
      \<and> (t \<noteq> 0 \<longrightarrow> t' = t)
      \<and> (t = 0 \<longrightarrow> (p1 = p2 \<longrightarrow> t' = 0)
            \<and> (\<forall>i < length p1. take i p1 = take i p2 \<longrightarrow> p1 ! i \<noteq> p2 ! i \<longrightarrow>
                  t' = uc (p2 ! i) - uc (p1 ! i)))"
  using assms(1,2,3,6,7)
proof (induction "length p1" arbitrary: p1 p2 t rule: less_induct)
  case less
  show ?case
  proof (cases p1)
    case Nil
    with less.prems(3) have "p2 = []" by simp
    with Nil show ?thesis by (intro exI [of _ t]) simp
  next
    case (Cons x q1)
    with less.prems(3) obtain y q2 where p2: "p2 = y # q2" by (cases p2) auto
    from Cons p2 less.prems have nz: "x \<noteq> NUL" "y \<noteq> NUL" "NUL \<notin> set q1" "NUL \<notin> set q2"
      by auto
    from Cons p2 less.prems(3) have eq: "tolower (uc x) = tolower (uc y)"
      "map (\<lambda>c. tolower (uc c)) q1 = map (\<lambda>c. tolower (uc c)) q2" by auto
    have start: "strcmp_natural_while t (p1 @ w1) (p2 @ w2) =
        strcmp_natural_do t (p1 @ w1) (p2 @ w2)"
      using Cons p2 nz by simp
    show ?thesis
    proof (cases "isdigit (uc x)")
      case True
      with eq(1) have xy: "x = y" by (rule fold_digit_eq)
      define z where "z = digit_run p1"
      define v1 where "v1 = after_digits p1"
      define v2 where "v2 = after_digits p2"
      from fold_digit_runs [OF less.prems(3)]
      have z2: "digit_run p2 = z"
        and veq: "map (\<lambda>c. tolower (uc c)) v1 = map (\<lambda>c. tolower (uc c)) v2"
        by (simp_all add: z_def v1_def v2_def)
      have p1: "p1 = z @ v1" and p2': "p2 = z @ v2"
        using digit_run_after_digits [of p1] digit_run_after_digits [of p2] z2
        by (simp_all add: z_def v1_def v2_def)
      have zdig: "\<forall>c \<in> set z. isdigit (uc c)"
        unfolding z_def digit_run_def by (auto dest: set_takeWhileD)
      have znil: "z \<noteq> []" using True Cons by (simp add: z_def digit_run_def)
      have h1: "v1 = [] \<or> \<not> isdigit (uc (hd v1))"
        unfolding v1_def after_digits_def by (metis hd_dropWhile)
      have h2: "v2 = [] \<or> \<not> isdigit (uc (hd v2))"
        unfolding v2_def after_digits_def by (metis hd_dropWhile)
      have b1: "\<not> isdigit (uc (hd (v1 @ w1)))"
      proof (cases "v1 = []")
        case True
        with p1 znil zdig have "isdigit (uc (last p1))" by simp
        with less.prems(4) Cons True show ?thesis by simp
      next
        case False
        with h1 show ?thesis by simp
      qed
      have b2: "\<not> isdigit (uc (hd (v2 @ w2)))"
      proof (cases "v2 = []")
        case True
        with p2' znil zdig have "isdigit (uc (last p2))" by simp
        with less.prems(5) p2 True show ?thesis by simp
      next
        case False
        with h2 show ?thesis by simp
      qed
      have ne: "v1 @ w1 \<noteq> []" "v2 @ w2 \<noteq> []" using assms(4,5) by simp_all
      have "strcmp_natural_do t (z @ v1 @ w1) (z @ v2 @ w2) =
          strcmp_natural_while t (v1 @ w1) (v2 @ w2)"
        using strcmp_natural_do_runs_order [OF zdig zdig znil znil ne b1 b2, of t] by simp
      with start p1 p2' have step: "strcmp_natural_while t (p1 @ w1) (p2 @ w2) =
          strcmp_natural_while t (v1 @ w1) (v2 @ w2)" by simp
      have "\<exists>t'. strcmp_natural_while t (v1 @ w1) (v2 @ w2) = strcmp_natural_while t' w1 w2
        \<and> (t \<noteq> 0 \<longrightarrow> t' = t)
        \<and> (t = 0 \<longrightarrow> (v1 = v2 \<longrightarrow> t' = 0)
              \<and> (\<forall>i < length v1. take i v1 = take i v2 \<longrightarrow> v1 ! i \<noteq> v2 ! i \<longrightarrow>
                    t' = uc (v2 ! i) - uc (v1 ! i)))"
      proof (rule less.hyps)
        show "length v1 < length p1" using p1 znil by simp
        show "NUL \<notin> set v1" "NUL \<notin> set v2" using less.prems(1,2) p1 p2' by auto
        show "map (\<lambda>c. tolower (uc c)) v1 = map (\<lambda>c. tolower (uc c)) v2" by (rule veq)
        show "v1 = [] \<or> \<not> isdigit (uc (last v1)) \<or> \<not> isdigit (uc (hd w1))"
          using less.prems(4) p1 Cons by (cases "v1 = []") auto
        show "v2 = [] \<or> \<not> isdigit (uc (last v2)) \<or> \<not> isdigit (uc (hd w2))"
          using less.prems(5) p2' p2 by (cases "v2 = []") auto
      qed
      then obtain t' where t': "strcmp_natural_while t (v1 @ w1) (v2 @ w2) =
          strcmp_natural_while t' w1 w2"
        "t \<noteq> 0 \<longrightarrow> t' = t" "t = 0 \<longrightarrow> v1 = v2 \<longrightarrow> t' = 0"
        "\<And>j. t = 0 \<Longrightarrow> j < length v1 \<Longrightarrow> take j v1 = take j v2 \<Longrightarrow> v1 ! j \<noteq> v2 ! j \<Longrightarrow>
            t' = uc (v2 ! j) - uc (v1 ! j)"
        by blast
      have "t' = uc (p2 ! i) - uc (p1 ! i)"
        if "t = 0" "i < length p1" "take i p1 = take i p2" "p1 ! i \<noteq> p2 ! i" for i
      proof -
        from first_difference_behind [of i z v1 v2] that(2-4) p1 p2'
        obtain j where "j < length v1" "take j v1 = take j v2" "v1 ! j = p1 ! i" "v2 ! j = p2 ! i"
          by auto
        with t'(4) [of j] that(1,4) show ?thesis by simp
      qed
      moreover have "t = 0 \<longrightarrow> p1 = p2 \<longrightarrow> t' = 0" using t'(3) p1 p2' by simp
      ultimately show ?thesis using step t'(1,2) by (intro exI [of _ t']) simp
    next
      case False
      have ny: "\<not> isdigit (uc y)"
      proof
        assume "isdigit (uc y)"
        with eq(1) have "y = x" by (intro fold_digit_eq) simp_all
        with False \<open>isdigit (uc y)\<close> show False by simp
      qed
      let ?t = "if x = y then t else if t = 0 then uc y - uc x else t"
      from False ny eq(1) Cons p2
      have step: "strcmp_natural_do t (p1 @ w1) (p2 @ w2) =
          strcmp_natural_while ?t (q1 @ w1) (q2 @ w2)"
        by (simp add: Let_def)
      have "\<exists>t'. strcmp_natural_while ?t (q1 @ w1) (q2 @ w2) = strcmp_natural_while t' w1 w2
        \<and> (?t \<noteq> 0 \<longrightarrow> t' = ?t)
        \<and> (?t = 0 \<longrightarrow> (q1 = q2 \<longrightarrow> t' = 0)
              \<and> (\<forall>i < length q1. take i q1 = take i q2 \<longrightarrow> q1 ! i \<noteq> q2 ! i \<longrightarrow>
                    t' = uc (q2 ! i) - uc (q1 ! i)))"
      proof (rule less.hyps)
        show "length q1 < length p1" using Cons by simp
        show "NUL \<notin> set q1" "NUL \<notin> set q2" by (rule nz)+
        show "map (\<lambda>c. tolower (uc c)) q1 = map (\<lambda>c. tolower (uc c)) q2" by (rule eq)
        show "q1 = [] \<or> \<not> isdigit (uc (last q1)) \<or> \<not> isdigit (uc (hd w1))"
          using less.prems(4) Cons by (cases "q1 = []") auto
        show "q2 = [] \<or> \<not> isdigit (uc (last q2)) \<or> \<not> isdigit (uc (hd w2))"
          using less.prems(5) p2 by (cases "q2 = []") auto
      qed
      then obtain t' where t': "strcmp_natural_while ?t (q1 @ w1) (q2 @ w2) =
          strcmp_natural_while t' w1 w2"
        "?t \<noteq> 0 \<longrightarrow> t' = ?t" "?t = 0 \<longrightarrow> q1 = q2 \<longrightarrow> t' = 0"
        "\<And>j. ?t = 0 \<Longrightarrow> j < length q1 \<Longrightarrow> take j q1 = take j q2 \<Longrightarrow> q1 ! j \<noteq> q2 ! j \<Longrightarrow>
            t' = uc (q2 ! j) - uc (q1 ! j)"
        by blast
      show ?thesis
      proof (cases "x = y")
        case True
        have "t' = uc (p2 ! i) - uc (p1 ! i)"
          if "t = 0" "i < length p1" "take i p1 = take i p2" "p1 ! i \<noteq> p2 ! i" for i
          using that t'(4) [of "i - 1"] True Cons p2 by (cases i) auto
        with t'(1-3) True start step Cons p2 show ?thesis
          by (intro exI [of _ t']) auto
      next
        case xy: False
        then have tn: "?t \<noteq> 0" by auto
        have "t' = uc (p2 ! i) - uc (p1 ! i)"
          if "t = 0" "i < length p1" "take i p1 = take i p2" "p1 ! i \<noteq> p2 ! i" for i
          using that t'(2) tn xy Cons p2 by (cases i) auto
        with t'(1,2) tn xy start step Cons p2 show ?thesis
          by (intro exI [of _ t']) auto
      qed
    qed
  qed
qed


lemma strcmp_natural_result:
  assumes "s1 \<noteq> []" "s2 \<noteq> []" "NUL \<notin> set s1" "NUL \<notin> set s2"
  shows "\<exists>r. \<forall>m1 m2. strcmp_natural (s1 @ NUL # m1) (s2 @ NUL # m2) = Inr r"
proof (cases "s1 = s2")
  case False
  from strcmp_natural_differ [OF assms(3,4) False] show ?thesis by blast
next
  case True
  have "strcmp_natural (s1 @ NUL # m1) (s2 @ NUL # m2) = Inr 0" for m1 m2
  proof -
    have "\<exists>t'. strcmp_natural_while 0 (s1 @ NUL # m1) (s2 @ NUL # m2) =
          strcmp_natural_while t' (NUL # m1) (NUL # m2)
        \<and> ((0 :: int) \<noteq> 0 \<longrightarrow> t' = 0)
        \<and> ((0 :: int) = 0 \<longrightarrow> (s1 = s2 \<longrightarrow> t' = 0)
            \<and> (\<forall>i < length s1. take i s1 = take i s2 \<longrightarrow> s1 ! i \<noteq> s2 ! i \<longrightarrow>
                  t' = uc (s2 ! i) - uc (s1 ! i)))"
      by (rule strcmp_natural_while_tie_prefix) (use assms True in simp_all)
    with True strcmp_natural_nonempty [OF assms, of m1 m2] show ?thesis by auto
  qed
  then show ?thesis by blast
qed

lemma natural_decomposition:
  "\<exists>p1 p2 r1 r2. s1 = p1 @ r1 \<and> s2 = p2 @ r2
     \<and> map (\<lambda>c. tolower (uc c)) p1 = map (\<lambda>c. tolower (uc c)) p2
     \<and> (p1 = [] \<or> \<not> isdigit (uc (last p1)) \<or> r1 = [] \<or> \<not> isdigit (uc (hd r1)))
     \<and> (p2 = [] \<or> \<not> isdigit (uc (last p2)) \<or> r2 = [] \<or> \<not> isdigit (uc (hd r2)))
     \<and> (r1 = [] \<or> r2 = []
        \<or> (\<exists>z1 q1 z2 q2. r1 = z1 @ q1 \<and> r2 = z2 @ q2 \<and> z1 \<noteq> [] \<and> z2 \<noteq> []
              \<and> (\<forall>c \<in> set z1. isdigit (uc c)) \<and> (\<forall>c \<in> set z2. isdigit (uc c))
              \<and> (q1 = [] \<or> \<not> isdigit (uc (hd q1))) \<and> (q2 = [] \<or> \<not> isdigit (uc (hd q2)))
              \<and> (decimal z1 \<noteq> decimal z2 \<or> length z1 \<noteq> length z2))
        \<or> (\<exists>a q1 b q2. r1 = a # q1 \<and> r2 = b # q2 \<and> \<not> (isdigit (uc a) \<and> isdigit (uc b))
              \<and> tolower (uc a) \<noteq> tolower (uc b)))"
proof (induction "length s1" arbitrary: s1 s2 rule: less_induct)
  case less
  let ?done = "\<lambda>r1 r2. r1 = [] \<or> r2 = []
        \<or> (\<exists>z1 q1 z2 q2. r1 = z1 @ q1 \<and> r2 = z2 @ q2 \<and> z1 \<noteq> [] \<and> z2 \<noteq> []
              \<and> (\<forall>c \<in> set z1. isdigit (uc c)) \<and> (\<forall>c \<in> set z2. isdigit (uc c))
              \<and> (q1 = [] \<or> \<not> isdigit (uc (hd q1))) \<and> (q2 = [] \<or> \<not> isdigit (uc (hd q2)))
              \<and> (decimal z1 \<noteq> decimal z2 \<or> length z1 \<noteq> length z2))
        \<or> (\<exists>a q1 b q2. r1 = a # q1 \<and> r2 = b # q2 \<and> \<not> (isdigit (uc a) \<and> isdigit (uc b))
              \<and> tolower (uc a) \<noteq> tolower (uc b))"
  have here: ?case if "?done s1 s2"
    using that by (intro exI [of _ "[]"] exI [of _ s1] exI [of _ s2]) simp
  show ?case
  proof (cases "s1 = [] \<or> s2 = []")
    case True
    then show ?thesis by (intro here) blast
  next
    case False
    then obtain x t1 y t2 where s: "s1 = x # t1" "s2 = y # t2"
      by (cases s1; cases s2) auto
    show ?thesis
    proof (cases "isdigit (uc x) \<and> isdigit (uc y)")
      case True
      define z1 where "z1 = digit_run s1"
      define z2 where "z2 = digit_run s2"
      define v1 where "v1 = after_digits s1"
      define v2 where "v2 = after_digits s2"
      have s1: "s1 = z1 @ v1" and s2: "s2 = z2 @ v2"
        using digit_run_after_digits [of s1] digit_run_after_digits [of s2]
        by (simp_all add: z1_def z2_def v1_def v2_def)
      have dig: "\<forall>c \<in> set z1. isdigit (uc c)" "\<forall>c \<in> set z2. isdigit (uc c)"
        unfolding z1_def z2_def digit_run_def by (auto dest: set_takeWhileD)
      have nn: "z1 \<noteq> []" "z2 \<noteq> []" using True s by (simp_all add: z1_def z2_def digit_run_def)
      have h: "v1 = [] \<or> \<not> isdigit (uc (hd v1))" "v2 = [] \<or> \<not> isdigit (uc (hd v2))"
        unfolding v1_def v2_def after_digits_def by (metis hd_dropWhile)+
      show ?thesis
      proof (cases "z1 = z2")
        case False
        have differ: "decimal z1 \<noteq> decimal z2 \<or> length z1 \<noteq> length z2"
        proof (rule ccontr)
          assume "\<not> (decimal z1 \<noteq> decimal z2 \<or> length z1 \<noteq> length z2)"
          then have d: "decimal z1 = decimal z2" and l: "length z1 = length z2" by simp_all
          show False
          proof (cases "compare_digits z1 z2")
            case None
            with l have "z1 = z2" by (rule compare_digits_None [rotated -1])
            with False show False ..
          next
            case (Some c)
            from compare_digits_decimal [OF dig l Some] d show False by auto
          qed
        qed
        have "\<exists>z1 q1 z2 q2. s1 = z1 @ q1 \<and> s2 = z2 @ q2 \<and> z1 \<noteq> [] \<and> z2 \<noteq> []
              \<and> (\<forall>c \<in> set z1. isdigit (uc c)) \<and> (\<forall>c \<in> set z2. isdigit (uc c))
              \<and> (q1 = [] \<or> \<not> isdigit (uc (hd q1))) \<and> (q2 = [] \<or> \<not> isdigit (uc (hd q2)))
              \<and> (decimal z1 \<noteq> decimal z2 \<or> length z1 \<noteq> length z2)"
          by (rule exI [of _ z1], rule exI [of _ v1], rule exI [of _ z2], rule exI [of _ v2],
              intro conjI)
            (fact s1 s2 nn dig h differ)+
        then have "?done s1 s2" by (rule disjI2 [OF disjI2 [OF disjI1]])
        then show ?thesis by (rule here)
      next
        case same: True
        have "length v1 < length s1" using s1 nn by simp
        from less.hyps [OF this, of v2] obtain p1 p2 r1 r2 where
          dd: "v1 = p1 @ r1 \<and> v2 = p2 @ r2
            \<and> map (\<lambda>c. tolower (uc c)) p1 = map (\<lambda>c. tolower (uc c)) p2
            \<and> (p1 = [] \<or> \<not> isdigit (uc (last p1)) \<or> r1 = [] \<or> \<not> isdigit (uc (hd r1)))
            \<and> (p2 = [] \<or> \<not> isdigit (uc (last p2)) \<or> r2 = [] \<or> \<not> isdigit (uc (hd r2)))
            \<and> ?done r1 r2"
          by (elim exE) (rule that)
        note d = dd [THEN conjunct1] dd [THEN conjunct2, THEN conjunct1]
          dd [THEN conjunct2, THEN conjunct2, THEN conjunct1]
          dd [THEN conjunct2, THEN conjunct2, THEN conjunct2, THEN conjunct1]
          dd [THEN conjunct2, THEN conjunct2, THEN conjunct2, THEN conjunct2, THEN conjunct1]
          dd [THEN conjunct2, THEN conjunct2, THEN conjunct2, THEN conjunct2, THEN conjunct2]
        have b1: "z1 @ p1 = [] \<or> \<not> isdigit (uc (last (z1 @ p1))) \<or> r1 = []
            \<or> \<not> isdigit (uc (hd r1))"
        proof (cases "p1 = []")
          case True
          with d(1) h(1) show ?thesis by simp
        next
          case False
          with d(4) show ?thesis by simp
        qed
        have b2: "z2 @ p2 = [] \<or> \<not> isdigit (uc (last (z2 @ p2))) \<or> r2 = []
            \<or> \<not> isdigit (uc (hd r2))"
        proof (cases "p2 = []")
          case True
          with d(2) h(2) show ?thesis by simp
        next
          case False
          with d(5) show ?thesis by simp
        qed
        from s1 s2 d(1,2) have e: "s1 = (z1 @ p1) @ r1" "s2 = (z2 @ p2) @ r2" by simp_all
        from same d(3)
        have m: "map (\<lambda>c. tolower (uc c)) (z1 @ p1) = map (\<lambda>c. tolower (uc c)) (z2 @ p2)"
          by simp
        show ?thesis
          by (rule exI [of _ "z1 @ p1"], rule exI [of _ "z2 @ p2"], rule exI [of _ r1],
              rule exI [of _ r2], intro conjI)
            (fact e m b1 b2 d(6))+
      qed
    next
      case nd: False
      show ?thesis
      proof (cases "tolower (uc x) = tolower (uc y)")
        case ne: False
        have "\<exists>a q1 b q2. s1 = a # q1 \<and> s2 = b # q2 \<and> \<not> (isdigit (uc a) \<and> isdigit (uc b))
              \<and> tolower (uc a) \<noteq> tolower (uc b)"
          by (rule exI [of _ x], rule exI [of _ t1], rule exI [of _ y], rule exI [of _ t2])
            (simp add: s nd ne)
        then have "?done s1 s2" by (rule disjI2 [OF disjI2 [OF disjI2]])
        then show ?thesis by (rule here)
      next
        case True
        have nx: "\<not> isdigit (uc x)"
        proof
          assume dx: "isdigit (uc x)"
          with True have "x = y" by (rule fold_digit_eq)
          with dx nd show False by simp
        qed
        have ny: "\<not> isdigit (uc y)"
        proof
          assume dy: "isdigit (uc y)"
          with True have "y = x" by (intro fold_digit_eq) simp_all
          with dy nd show False by simp
        qed
        have "length t1 < length s1" using s by simp
        from less.hyps [OF this, of t2] obtain p1 p2 r1 r2 where
          dd: "t1 = p1 @ r1 \<and> t2 = p2 @ r2
            \<and> map (\<lambda>c. tolower (uc c)) p1 = map (\<lambda>c. tolower (uc c)) p2
            \<and> (p1 = [] \<or> \<not> isdigit (uc (last p1)) \<or> r1 = [] \<or> \<not> isdigit (uc (hd r1)))
            \<and> (p2 = [] \<or> \<not> isdigit (uc (last p2)) \<or> r2 = [] \<or> \<not> isdigit (uc (hd r2)))
            \<and> ?done r1 r2"
          by (elim exE) (rule that)
        note d = dd [THEN conjunct1] dd [THEN conjunct2, THEN conjunct1]
          dd [THEN conjunct2, THEN conjunct2, THEN conjunct1]
          dd [THEN conjunct2, THEN conjunct2, THEN conjunct2, THEN conjunct1]
          dd [THEN conjunct2, THEN conjunct2, THEN conjunct2, THEN conjunct2, THEN conjunct1]
          dd [THEN conjunct2, THEN conjunct2, THEN conjunct2, THEN conjunct2, THEN conjunct2]
        have b1: "x # p1 = [] \<or> \<not> isdigit (uc (last (x # p1))) \<or> r1 = []
            \<or> \<not> isdigit (uc (hd r1))"
          using d(4) nx by (cases "p1 = []") auto
        have b2: "y # p2 = [] \<or> \<not> isdigit (uc (last (y # p2))) \<or> r2 = []
            \<or> \<not> isdigit (uc (hd r2))"
          using d(5) ny by (cases "p2 = []") auto
        from s d(1,2) have e: "s1 = (x # p1) @ r1" "s2 = (y # p2) @ r2" by simp_all
        from True d(3)
        have m: "map (\<lambda>c. tolower (uc c)) (x # p1) = map (\<lambda>c. tolower (uc c)) (y # p2)"
          by simp
        show ?thesis
          by (rule exI [of _ "x # p1"], rule exI [of _ "y # p2"], rule exI [of _ r1],
              rule exI [of _ r2], intro conjI)
            (fact e m b1 b2 d(6))+
      qed
    qed
  qed
qed

text \<open>
  C7. Let two non-empty strings without \<open>NUL\<close> be split as \<open>p1 r1\<close> and \<open>p2 r2\<close>, where
  \<open>p1\<close> and \<open>p2\<close> are equal up to the case of their letters and neither split falls
  inside a run of digits. \<open>strcmp_natural\<close> returns a value that does not depend on the
  bytes behind the terminators, and that value is decided at the split:
  \<^item> where \<open>r1\<close> and \<open>r2\<close> begin with the digit runs \<open>z1\<close> and \<open>z2\<close> (each followed by the
    end of the string or by a byte that is no digit), the runs are compared as numbers,
    leading zeroes having no weight: the string with the smaller number sorts first;
    where the numbers are equal, the run with more leading zeroes, the longer one, sorts
    first;
  \<^item> where \<open>r1\<close> and \<open>r2\<close> begin with two bytes that are not both digits, the string
    whose byte is smaller after \<open>tolower\<close> sorts first, as with \<open>strcmp_default\<close>;
  \<^item> where one string ends at the split and the other goes on, the one that ends sorts
    first;
  \<^item> where both strings end at the split, the result is 0 for equal strings, and
    otherwise the string that has the lowercase letter at the first byte in which the
    two differ sorts first, as with \<open>strcmp_default\<close>.

  Every pair of strings has such a split at which one of these cases decides. Where one
  of two strings holds no digit at all, \<open>strcmp_natural\<close> is \<open>strcmp_default\<close>. Natural
  sort orders \<open>file10\<close>, \<open>file7\<close>, \<open>file07\<close>, \<open>file2\<close> as \<open>file2\<close>, \<open>file07\<close>, \<open>file7\<close>,
  \<open>file10\<close>.
\<close>

theorem strcmp_natural_order:
  assumes "p1 @ r1 \<noteq> []" and "p2 @ r2 \<noteq> []"
    and "NUL \<notin> set (p1 @ r1)" and "NUL \<notin> set (p2 @ r2)"
    and "map (\<lambda>c. tolower (uc c)) p1 = map (\<lambda>c. tolower (uc c)) p2"
    and "p1 = [] \<or> \<not> isdigit (uc (last p1)) \<or> r1 = [] \<or> \<not> isdigit (uc (hd r1))"
    and "p2 = [] \<or> \<not> isdigit (uc (last p2)) \<or> r2 = [] \<or> \<not> isdigit (uc (hd r2))"
  shows "\<exists>r. (\<forall>m1 m2. strcmp_natural (p1 @ r1 @ NUL # m1) (p2 @ r2 @ NUL # m2) = Inr r)
    \<and> (\<forall>z1 q1 z2 q2. r1 = z1 @ q1 \<and> r2 = z2 @ q2 \<and> z1 \<noteq> [] \<and> z2 \<noteq> []
          \<and> (\<forall>c \<in> set z1. isdigit (uc c)) \<and> (\<forall>c \<in> set z2. isdigit (uc c))
          \<and> (q1 = [] \<or> \<not> isdigit (uc (hd q1))) \<and> (q2 = [] \<or> \<not> isdigit (uc (hd q2))) \<longrightarrow>
          (decimal z1 < decimal z2 \<longrightarrow> r < 0) \<and> (decimal z2 < decimal z1 \<longrightarrow> 0 < r)
        \<and> (decimal z1 = decimal z2 \<and> length z2 < length z1 \<longrightarrow> r < 0)
        \<and> (decimal z1 = decimal z2 \<and> length z1 < length z2 \<longrightarrow> 0 < r))
    \<and> (\<forall>a q1 b q2. r1 = a # q1 \<and> r2 = b # q2 \<and> \<not> (isdigit (uc a) \<and> isdigit (uc b)) \<longrightarrow>
          (tolower (uc a) < tolower (uc b) \<longrightarrow> r < 0)
        \<and> (tolower (uc b) < tolower (uc a) \<longrightarrow> 0 < r))
    \<and> (r1 = [] \<and> r2 \<noteq> [] \<longrightarrow> r < 0) \<and> (r1 \<noteq> [] \<and> r2 = [] \<longrightarrow> 0 < r)
    \<and> (r1 = [] \<and> r2 = [] \<longrightarrow>
          (p1 = p2 \<longrightarrow> r = 0)
        \<and> (\<forall>i < length p1. take i p1 = take i p2 \<longrightarrow> p1 ! i \<noteq> p2 ! i \<longrightarrow>
              (tolower (uc (p1 ! i)) = uc (p1 ! i) \<longrightarrow> r < 0)
            \<and> (tolower (uc (p2 ! i)) = uc (p2 ! i) \<longrightarrow> 0 < r)))
    \<and> (\<forall>s1 s2. \<exists>p1 p2 r1 r2. s1 = p1 @ r1 \<and> s2 = p2 @ r2
          \<and> map (\<lambda>c. tolower (uc c)) p1 = map (\<lambda>c. tolower (uc c)) p2
          \<and> (p1 = [] \<or> \<not> isdigit (uc (last p1)) \<or> r1 = [] \<or> \<not> isdigit (uc (hd r1)))
          \<and> (p2 = [] \<or> \<not> isdigit (uc (last p2)) \<or> r2 = [] \<or> \<not> isdigit (uc (hd r2)))
          \<and> (r1 = [] \<or> r2 = []
             \<or> (\<exists>z1 q1 z2 q2. r1 = z1 @ q1 \<and> r2 = z2 @ q2 \<and> z1 \<noteq> [] \<and> z2 \<noteq> []
                   \<and> (\<forall>c \<in> set z1. isdigit (uc c)) \<and> (\<forall>c \<in> set z2. isdigit (uc c))
                   \<and> (q1 = [] \<or> \<not> isdigit (uc (hd q1))) \<and> (q2 = [] \<or> \<not> isdigit (uc (hd q2)))
                   \<and> (decimal z1 \<noteq> decimal z2 \<or> length z1 \<noteq> length z2))
             \<or> (\<exists>a q1 b q2. r1 = a # q1 \<and> r2 = b # q2
                   \<and> \<not> (isdigit (uc a) \<and> isdigit (uc b))
                   \<and> tolower (uc a) \<noteq> tolower (uc b))))
    \<and> (\<forall>s1 s2. s1 \<noteq> [] \<and> s2 \<noteq> [] \<and>
          ((\<forall>c \<in> set s1. \<not> isdigit (uc c)) \<or> (\<forall>c \<in> set s2. \<not> isdigit (uc c))) \<longrightarrow>
          strcmp_natural (s1 @ [NUL]) (s2 @ [NUL]) = strcmp_default (s1 @ [NUL]) (s2 @ [NUL]))
    \<and> qsort (\<lambda>a b. strcmp_natural (a @ [NUL]) (b @ [NUL]))
          [''file10'', ''file7'', ''file07'', ''file2''] =
        Inr [''file2'', ''file07'', ''file7'', ''file10'']
    \<and> qsort qsort_compar_natural [''d/file10'', ''d/file7'', ''d/file07'', ''d/file2''] =
        Inr [''d/file2'', ''d/file07'', ''d/file7'', ''d/file10'']"
proof -
  let ?w1 = "r1 @ [NUL]" and ?w2 = "r2 @ [NUL]"
  from assms(3,4) have nul: "NUL \<notin> set p1" "NUL \<notin> set p2" "NUL \<notin> set r1" "NUL \<notin> set r2"
    by simp_all
  from strcmp_natural_result [OF assms(1-4)] obtain r where
    r: "\<And>m1 m2. strcmp_natural (p1 @ r1 @ NUL # m1) (p2 @ r2 @ NUL # m2) = Inr r"
    by auto
  have b1: "p1 = [] \<or> \<not> isdigit (uc (last p1)) \<or> \<not> isdigit (uc (hd ?w1))"
    using assms(6) by (cases r1) auto
  have b2: "p2 = [] \<or> \<not> isdigit (uc (last p2)) \<or> \<not> isdigit (uc (hd ?w2))"
    using assms(7) by (cases r2) auto
  have "\<exists>t'. strcmp_natural_while 0 (p1 @ ?w1) (p2 @ ?w2) = strcmp_natural_while t' ?w1 ?w2
      \<and> ((0 :: int) \<noteq> 0 \<longrightarrow> t' = 0)
      \<and> ((0 :: int) = 0 \<longrightarrow> (p1 = p2 \<longrightarrow> t' = 0)
            \<and> (\<forall>i < length p1. take i p1 = take i p2 \<longrightarrow> p1 ! i \<noteq> p2 ! i \<longrightarrow>
                  t' = uc (p2 ! i) - uc (p1 ! i)))"
    by (rule strcmp_natural_while_tie_prefix [OF nul(1,2) assms(5) _ _ b1 b2]) simp_all
  then obtain t' where
    t1: "strcmp_natural_while 0 (p1 @ ?w1) (p2 @ ?w2) = strcmp_natural_while t' ?w1 ?w2"
    and t2: "p1 = p2 \<longrightarrow> t' = 0"
    and t3: "\<And>i. i < length p1 \<Longrightarrow> take i p1 = take i p2 \<Longrightarrow> p1 ! i \<noteq> p2 ! i \<Longrightarrow>
        t' = uc (p2 ! i) - uc (p1 ! i)"
    by auto
  from strcmp_natural_nonempty [OF assms(1-4), of "[]" "[]"] r [of "[]" "[]"] t1
  have val: "strcmp_natural_while t' ?w1 ?w2 = Inr r" by simp
  have digits: "(decimal z1 < decimal z2 \<longrightarrow> r < 0) \<and> (decimal z2 < decimal z1 \<longrightarrow> 0 < r)
        \<and> (decimal z1 = decimal z2 \<and> length z2 < length z1 \<longrightarrow> r < 0)
        \<and> (decimal z1 = decimal z2 \<and> length z1 < length z2 \<longrightarrow> 0 < r)"
    if h: "r1 = z1 @ q1 \<and> r2 = z2 @ q2 \<and> z1 \<noteq> [] \<and> z2 \<noteq> []
          \<and> (\<forall>c \<in> set z1. isdigit (uc c)) \<and> (\<forall>c \<in> set z2. isdigit (uc c))
          \<and> (q1 = [] \<or> \<not> isdigit (uc (hd q1))) \<and> (q2 = [] \<or> \<not> isdigit (uc (hd q2)))"
    for z1 q1 z2 q2
  proof -
    from h have e: "r1 = z1 @ q1" "r2 = z2 @ q2" and nn: "z1 \<noteq> []" "z2 \<noteq> []"
      and dz: "\<forall>c \<in> set z1. isdigit (uc c)" "\<forall>c \<in> set z2. isdigit (uc c)"
      and hq: "q1 = [] \<or> \<not> isdigit (uc (hd q1))" "q2 = [] \<or> \<not> isdigit (uc (hd q2))"
      by simp_all
    have ne: "q1 @ [NUL] \<noteq> []" "q2 @ [NUL] \<noteq> []" by simp_all
    have hd1: "\<not> isdigit (uc (hd (q1 @ [NUL])))" using hq(1) by (cases q1) simp_all
    have hd2: "\<not> isdigit (uc (hd (q2 @ [NUL])))" using hq(2) by (cases q2) simp_all
    from nn obtain a c1 b c2 where z: "z1 = a # c1" "z2 = b # c2"
      by (cases z1; cases z2) auto
    with nul(3,4) e have "a \<noteq> NUL" "b \<noteq> NUL" by auto
    with z e have "strcmp_natural_while t' ?w1 ?w2 =
        strcmp_natural_do t' (z1 @ q1 @ [NUL]) (z2 @ q2 @ [NUL])" by simp
    with val have d: "strcmp_natural_do t' (z1 @ q1 @ [NUL]) (z2 @ q2 @ [NUL]) = Inr r" by simp
    from strcmp_natural_do_runs_order [OF dz nn ne hd1 hd2, of t'] show ?thesis
      unfolding d by auto
  qed
  have chars: "(tolower (uc a) < tolower (uc b) \<longrightarrow> r < 0)
        \<and> (tolower (uc b) < tolower (uc a) \<longrightarrow> 0 < r)"
    if h: "r1 = a # q1 \<and> r2 = b # q2 \<and> \<not> (isdigit (uc a) \<and> isdigit (uc b))" for a q1 b q2
  proof (cases "tolower (uc a) = tolower (uc b)")
    case True
    then show ?thesis by simp
  next
    case False
    then have ab: "a \<noteq> b" by auto
    from h have e: "r1 = a # q1" "r2 = b # q2"
      and nd: "(isdigit (uc a) \<and> isdigit (uc b)) = False" by simp_all
    from e nul(3,4) have nz: "a \<noteq> NUL" "b \<noteq> NUL" by auto
    have "strcmp_natural_while t' ?w1 ?w2 = Inr (tolower (uc a) - tolower (uc b))"
      using ab nz False by (simp add: e nd Let_def)
    with val show ?thesis by auto
  qed
  have end1: "r < 0" if "r1 = [] \<and> r2 \<noteq> []"
  proof -
    from that obtain b q where "r2 = b # q" by (cases r2) auto
    moreover with nul(4) have "b \<noteq> NUL" by auto
    ultimately have "strcmp_natural_while t' ?w1 ?w2 = Inr (- uc b)" "0 < uc b"
      using that by (simp_all add: uc_pos)
    with val show ?thesis by simp
  qed
  have end2: "0 < r" if "r1 \<noteq> [] \<and> r2 = []"
  proof -
    from that obtain a q where "r1 = a # q" by (cases r1) auto
    moreover with nul(3) have "a \<noteq> NUL" by auto
    ultimately have "strcmp_natural_while t' ?w1 ?w2 = Inr (uc a)" "0 < uc a"
      using that by (simp_all add: uc_pos)
    with val show ?thesis by simp
  qed
  have tie: "(p1 = p2 \<longrightarrow> r = 0)
        \<and> (\<forall>i < length p1. take i p1 = take i p2 \<longrightarrow> p1 ! i \<noteq> p2 ! i \<longrightarrow>
              (tolower (uc (p1 ! i)) = uc (p1 ! i) \<longrightarrow> r < 0)
            \<and> (tolower (uc (p2 ! i)) = uc (p2 ! i) \<longrightarrow> 0 < r))"
    if "r1 = [] \<and> r2 = []"
  proof -
    from that val have rt: "r = t'" by simp
    have "(tolower (uc (p1 ! i)) = uc (p1 ! i) \<longrightarrow> r < 0)
        \<and> (tolower (uc (p2 ! i)) = uc (p2 ! i) \<longrightarrow> 0 < r)"
      if i: "i < length p1" "take i p1 = take i p2" "p1 ! i \<noteq> p2 ! i" for i
    proof -
      from assms(5) have "length p1 = length p2" by (rule map_eq_imp_length_eq)
      with i(1) assms(5) have f: "tolower (uc (p1 ! i)) = tolower (uc (p2 ! i))"
        by (metis (mono_tags, lifting) nth_map)
      from i(3) have ne: "uc (p1 ! i) \<noteq> uc (p2 ! i)" by simp
      from t3 [OF i] rt have v: "r = uc (p2 ! i) - uc (p1 ! i)" by simp
      have "uc (p2 ! i) < uc (p1 ! i)" if "tolower (uc (p1 ! i)) = uc (p1 ! i)"
        using tolower_variant [OF f ne that] .
      moreover have "uc (p1 ! i) < uc (p2 ! i)" if "tolower (uc (p2 ! i)) = uc (p2 ! i)"
        using tolower_variant [OF f [symmetric] ne [symmetric] that] .
      ultimately show ?thesis using v by auto
    qed
    with t2 rt show ?thesis by blast
  qed
  have ex1: "qsort (\<lambda>a b. strcmp_natural (a @ [NUL]) (b @ [NUL]))
      [''file10'', ''file7'', ''file07'', ''file2''] =
      Inr [''file2'', ''file07'', ''file7'', ''file10'']"
    by (simp add: strcmp_natural_def NUL_def uc_def tolower_def isdigit_def digit_run_def
        after_digits_def)
  have ex2: "qsort qsort_compar_natural [''d/file10'', ''d/file7'', ''d/file07'', ''d/file2''] =
      Inr [''d/file2'', ''d/file07'', ''d/file7'', ''d/file10'']"
    by (simp add: qsort_compar_natural_def qsort_compar_def DIR_SEPARATOR_def
        strcmp_natural_def NUL_def uc_def tolower_def isdigit_def digit_run_def
        after_digits_def)
  have dflt: "\<forall>s1 s2. s1 \<noteq> [] \<and> s2 \<noteq> [] \<and>
      ((\<forall>c \<in> set s1. \<not> isdigit (uc c)) \<or> (\<forall>c \<in> set s2. \<not> isdigit (uc c))) \<longrightarrow>
      strcmp_natural (s1 @ [NUL]) (s2 @ [NUL]) = strcmp_default (s1 @ [NUL]) (s2 @ [NUL])"
    using strcmp_natural_is_default by blast
  have c1: "\<forall>m1 m2. strcmp_natural (p1 @ r1 @ NUL # m1) (p2 @ r2 @ NUL # m2) = Inr r"
    by (intro allI) (rule r)
  have c2: "\<forall>z1 q1 z2 q2. r1 = z1 @ q1 \<and> r2 = z2 @ q2 \<and> z1 \<noteq> [] \<and> z2 \<noteq> []
          \<and> (\<forall>c \<in> set z1. isdigit (uc c)) \<and> (\<forall>c \<in> set z2. isdigit (uc c))
          \<and> (q1 = [] \<or> \<not> isdigit (uc (hd q1))) \<and> (q2 = [] \<or> \<not> isdigit (uc (hd q2))) \<longrightarrow>
          (decimal z1 < decimal z2 \<longrightarrow> r < 0) \<and> (decimal z2 < decimal z1 \<longrightarrow> 0 < r)
        \<and> (decimal z1 = decimal z2 \<and> length z2 < length z1 \<longrightarrow> r < 0)
        \<and> (decimal z1 = decimal z2 \<and> length z1 < length z2 \<longrightarrow> 0 < r)"
    by (intro allI impI) (rule digits)
  have c3: "\<forall>a q1 b q2. r1 = a # q1 \<and> r2 = b # q2 \<and> \<not> (isdigit (uc a) \<and> isdigit (uc b)) \<longrightarrow>
          (tolower (uc a) < tolower (uc b) \<longrightarrow> r < 0)
        \<and> (tolower (uc b) < tolower (uc a) \<longrightarrow> 0 < r)"
    by (intro allI impI) (rule chars)
  have c4: "r1 = [] \<and> r2 \<noteq> [] \<longrightarrow> r < 0" by (intro impI) (rule end1)
  have c5: "r1 \<noteq> [] \<and> r2 = [] \<longrightarrow> 0 < r" by (intro impI) (rule end2)
  have c6: "r1 = [] \<and> r2 = [] \<longrightarrow>
          (p1 = p2 \<longrightarrow> r = 0)
        \<and> (\<forall>i < length p1. take i p1 = take i p2 \<longrightarrow> p1 ! i \<noteq> p2 ! i \<longrightarrow>
              (tolower (uc (p1 ! i)) = uc (p1 ! i) \<longrightarrow> r < 0)
            \<and> (tolower (uc (p2 ! i)) = uc (p2 ! i) \<longrightarrow> 0 < r))"
    by (intro impI) (rule tie)
  have c7: "\<forall>s1 s2 :: char list. \<exists>p1 p2 r1 r2. s1 = p1 @ r1 \<and> s2 = p2 @ r2
          \<and> map (\<lambda>c. tolower (uc c)) p1 = map (\<lambda>c. tolower (uc c)) p2
          \<and> (p1 = [] \<or> \<not> isdigit (uc (last p1)) \<or> r1 = [] \<or> \<not> isdigit (uc (hd r1)))
          \<and> (p2 = [] \<or> \<not> isdigit (uc (last p2)) \<or> r2 = [] \<or> \<not> isdigit (uc (hd r2)))
          \<and> (r1 = [] \<or> r2 = []
             \<or> (\<exists>z1 q1 z2 q2. r1 = z1 @ q1 \<and> r2 = z2 @ q2 \<and> z1 \<noteq> [] \<and> z2 \<noteq> []
                   \<and> (\<forall>c \<in> set z1. isdigit (uc c)) \<and> (\<forall>c \<in> set z2. isdigit (uc c))
                   \<and> (q1 = [] \<or> \<not> isdigit (uc (hd q1))) \<and> (q2 = [] \<or> \<not> isdigit (uc (hd q2)))
                   \<and> (decimal z1 \<noteq> decimal z2 \<or> length z1 \<noteq> length z2))
             \<or> (\<exists>a q1 b q2. r1 = a # q1 \<and> r2 = b # q2
                   \<and> \<not> (isdigit (uc a) \<and> isdigit (uc b))
                   \<and> tolower (uc a) \<noteq> tolower (uc b)))"
    by (intro allI) (rule natural_decomposition)
  show ?thesis
    by (rule exI [of _ r]) (intro conjI c1 c2 c3 c4 c5 c6 c7 dflt ex1 ex2)
qed

theorem strcmp_natural_order_witness:
  "map (\<lambda>c. tolower (uc c)) ''File'' = map (\<lambda>c. tolower (uc c)) ''file''
   \<and> \<not> isdigit (uc (last ''File'')) \<and> \<not> isdigit (uc (last ''file''))
   \<and> decimal ''7'' < decimal ''10''
   \<and> (\<exists>r. r < 0 \<and> strcmp_natural (''File'' @ ''7'' @ [NUL]) (''file'' @ ''10'' @ [NUL]) = Inr r)
   \<and> strcmp_natural (''File7'' @ [NUL]) (''file10'' @ [NUL]) = Inr (- 1)
   \<and> \<not> isdigit (uc (hd ''b'')) \<and> \<not> isdigit (uc (hd ''c''))
   \<and> tolower (uc (CHR ''b'')) < tolower (uc (CHR ''c''))
   \<and> (\<exists>r. r < 0 \<and> strcmp_natural (''a1'' @ ''b'' @ [NUL]) (''a1'' @ ''c'' @ [NUL]) = Inr r)
   \<and> map (\<lambda>c. tolower (uc c)) ''File7'' = map (\<lambda>c. tolower (uc c)) ''file7''
   \<and> ''File7'' ! 0 \<noteq> ''file7'' ! 0 \<and> tolower (uc (''file7'' ! 0)) = uc (''file7'' ! 0)
   \<and> (\<exists>r. 0 < r \<and> strcmp_natural (''File7'' @ [] @ [NUL]) (''file7'' @ [] @ [NUL]) = Inr r)"
proof -
  have h1: "''File'' @ ''7'' \<noteq> []" "''file'' @ ''10'' \<noteq> []"
    "NUL \<notin> set (''File'' @ ''7'')" "NUL \<notin> set (''file'' @ ''10'')"
    "map (\<lambda>c. tolower (uc c)) ''File'' = map (\<lambda>c. tolower (uc c)) ''file''"
    "''File'' = [] \<or> \<not> isdigit (uc (last ''File'')) \<or> ''7'' = [] \<or> \<not> isdigit (uc (hd ''7''))"
    "''file'' = [] \<or> \<not> isdigit (uc (last ''file'')) \<or> ''10'' = [] \<or> \<not> isdigit (uc (hd ''10''))"
    by (simp_all add: NUL_def uc_def tolower_def isdigit_def)
  have f1: "\<not> isdigit (uc (last ''File''))" "\<not> isdigit (uc (last ''file''))"
    "decimal ''7'' < decimal ''10''"
    by (simp_all add: uc_def isdigit_def)
  have v1: "\<exists>r. r < 0 \<and> strcmp_natural (''File'' @ ''7'' @ [NUL]) (''file'' @ ''10'' @ [NUL]) = Inr r"
    using strcmp_natural_order [OF h1]
  proof (elim exE conjE)
    fix r
    assume a: "\<forall>m1 m2. strcmp_natural (''File'' @ ''7'' @ NUL # m1) (''file'' @ ''10'' @ NUL # m2)
        = Inr r"
      and d: "\<forall>z1 q1 z2 q2. ''7'' = z1 @ q1 \<and> ''10'' = z2 @ q2 \<and> z1 \<noteq> [] \<and> z2 \<noteq> []
          \<and> (\<forall>c \<in> set z1. isdigit (uc c)) \<and> (\<forall>c \<in> set z2. isdigit (uc c))
          \<and> (q1 = [] \<or> \<not> isdigit (uc (hd q1))) \<and> (q2 = [] \<or> \<not> isdigit (uc (hd q2))) \<longrightarrow>
          (decimal z1 < decimal z2 \<longrightarrow> r < 0) \<and> (decimal z2 < decimal z1 \<longrightarrow> 0 < r)
        \<and> (decimal z1 = decimal z2 \<and> length z2 < length z1 \<longrightarrow> r < 0)
        \<and> (decimal z1 = decimal z2 \<and> length z1 < length z2 \<longrightarrow> 0 < r)"
    from d [THEN spec, THEN spec, THEN spec, THEN spec, of "''7''" "[]" "''10''" "[]"]
    have "r < 0" by (simp add: isdigit_def uc_def)
    moreover from a have "strcmp_natural (''File'' @ ''7'' @ [NUL]) (''file'' @ ''10'' @ [NUL])
        = Inr r" by blast
    ultimately show ?thesis by blast
  qed
  have e1: "strcmp_natural (''File7'' @ [NUL]) (''file10'' @ [NUL]) = Inr (- 1)"
    by (simp add: strcmp_natural_def NUL_def uc_def isdigit_def tolower_def digit_run_def
        after_digits_def)
  have h2: "''a1'' @ ''b'' \<noteq> []" "''a1'' @ ''c'' \<noteq> []"
    "NUL \<notin> set (''a1'' @ ''b'')" "NUL \<notin> set (''a1'' @ ''c'')"
    "map (\<lambda>c. tolower (uc c)) ''a1'' = map (\<lambda>c. tolower (uc c)) ''a1''"
    "''a1'' = [] \<or> \<not> isdigit (uc (last ''a1'')) \<or> ''b'' = [] \<or> \<not> isdigit (uc (hd ''b''))"
    "''a1'' = [] \<or> \<not> isdigit (uc (last ''a1'')) \<or> ''c'' = [] \<or> \<not> isdigit (uc (hd ''c''))"
    by (simp_all add: NUL_def uc_def tolower_def isdigit_def)
  have f2: "\<not> isdigit (uc (hd ''b''))" "\<not> isdigit (uc (hd ''c''))"
    "tolower (uc (CHR ''b'')) < tolower (uc (CHR ''c''))"
    by (simp_all add: uc_def isdigit_def tolower_def)
  have v2: "\<exists>r. r < 0 \<and> strcmp_natural (''a1'' @ ''b'' @ [NUL]) (''a1'' @ ''c'' @ [NUL]) = Inr r"
    using strcmp_natural_order [OF h2]
  proof (elim exE conjE)
    fix r
    assume a: "\<forall>m1 m2. strcmp_natural (''a1'' @ ''b'' @ NUL # m1) (''a1'' @ ''c'' @ NUL # m2)
        = Inr r"
      and d: "\<forall>a q1 b q2. ''b'' = a # q1 \<and> ''c'' = b # q2
          \<and> \<not> (isdigit (uc a) \<and> isdigit (uc b)) \<longrightarrow>
          (tolower (uc a) < tolower (uc b) \<longrightarrow> r < 0)
        \<and> (tolower (uc b) < tolower (uc a) \<longrightarrow> 0 < r)"
    from d [THEN spec, THEN spec, THEN spec, THEN spec, of "CHR ''b''" "[]" "CHR ''c''" "[]"]
    have "r < 0" by (simp add: isdigit_def uc_def tolower_def)
    moreover from a have "strcmp_natural (''a1'' @ ''b'' @ [NUL]) (''a1'' @ ''c'' @ [NUL])
        = Inr r" by blast
    ultimately show ?thesis by blast
  qed
  have h3: "''File7'' @ [] \<noteq> []" "''file7'' @ [] \<noteq> []"
    "NUL \<notin> set (''File7'' @ [])" "NUL \<notin> set (''file7'' @ [])"
    "map (\<lambda>c. tolower (uc c)) ''File7'' = map (\<lambda>c. tolower (uc c)) ''file7''"
    "''File7'' = [] \<or> \<not> isdigit (uc (last ''File7'')) \<or> ([] :: char list) = []
       \<or> \<not> isdigit (uc (hd []))"
    "''file7'' = [] \<or> \<not> isdigit (uc (last ''file7'')) \<or> ([] :: char list) = []
       \<or> \<not> isdigit (uc (hd []))"
    by (simp_all add: NUL_def uc_def tolower_def isdigit_def)
  have f3: "''File7'' ! 0 \<noteq> ''file7'' ! 0" "tolower (uc (''file7'' ! 0)) = uc (''file7'' ! 0)"
    by (simp_all add: uc_def tolower_def)
  have v3: "\<exists>r. 0 < r \<and> strcmp_natural (''File7'' @ [] @ [NUL]) (''file7'' @ [] @ [NUL]) = Inr r"
    using strcmp_natural_order [OF h3]
  proof (elim exE conjE)
    fix r
    assume a: "\<forall>m1 m2. strcmp_natural (''File7'' @ [] @ NUL # m1) (''file7'' @ [] @ NUL # m2)
        = Inr r"
      and d: "([] :: char list) = [] \<and> ([] :: char list) = [] \<longrightarrow>
          (''File7'' = ''file7'' \<longrightarrow> r = 0)
        \<and> (\<forall>i < length ''File7''. take i ''File7'' = take i ''file7'' \<longrightarrow>
              ''File7'' ! i \<noteq> ''file7'' ! i \<longrightarrow>
              (tolower (uc (''File7'' ! i)) = uc (''File7'' ! i) \<longrightarrow> r < 0)
            \<and> (tolower (uc (''file7'' ! i)) = uc (''file7'' ! i) \<longrightarrow> 0 < r))"
    from d have "\<forall>i < length ''File7''. take i ''File7'' = take i ''file7'' \<longrightarrow>
              ''File7'' ! i \<noteq> ''file7'' ! i \<longrightarrow>
              (tolower (uc (''File7'' ! i)) = uc (''File7'' ! i) \<longrightarrow> r < 0)
            \<and> (tolower (uc (''file7'' ! i)) = uc (''file7'' ! i) \<longrightarrow> 0 < r)" by blast
    from this [THEN spec, of 0] f3 have "0 < r" by simp
    moreover from a have "strcmp_natural (''File7'' @ [] @ [NUL]) (''file7'' @ [] @ [NUL])
        = Inr r" by blast
    ultimately show ?thesis by blast
  qed
  show ?thesis
    by (intro conjI) (fact h1(5) f1 v1 e1 f2 v2 h3(5) f3 v3)+
qed

subsection \<open>Steps of the traversal and the paths in the list\<close>

text \<open>
  A directory that cannot be opened. The call returns 0 when \<open>errno\<close> is \<open>EACCES\<close>
  behind the debug message and \<open>-1\<close> otherwise: a directory without read permission is
  passed over when the message leaves \<open>errno\<close> alone, and ends the traversal when writing
  the message fails with another error.
\<close>

lemma parse_file_tree_opendir_fails:
  assumes "opendir sys directory = Inl e"
  shows "parse_file_tree (Suc fuel) sys file_type_arr file_ext directory directory_depth flags st =
    (case fprintf_stderr sys (n_fprintf st) of
       None \<Rightarrow> Some (Inr (if e \<noteq> EACCES then - 1 else 0,
                 st\<lparr>errno := e, n_fprintf := n_fprintf st + 1\<rparr>))
     | Some e' \<Rightarrow> Some (Inr (if e' \<noteq> EACCES then - 1 else 0,
                 st\<lparr>errno := e', n_fprintf := n_fprintf st + 1\<rparr>)))"
  using assms by (simp add: DEBUG_PRINTF_def Let_def split: option.split)

lemma parse_file_tree_opendir_EACCES_message_fails:
  "parse_file_tree 1
     (demo_os\<lparr>opendir := (\<lambda>p. Inl EACCES), fprintf_stderr := (\<lambda>n. Some (Errno 9))\<rparr>)
     (create_file_type_arr 0) None ''r'' 0 0
     (traversal_start \<lparr>st_dev = 1, st_ino = 10, st_mode = 16877\<rparr> (Errno 0)) =
   Some (Inr (- 1, (traversal_start \<lparr>st_dev = 1, st_ino = 10, st_mode = 16877\<rparr> (Errno 0))
     \<lparr>errno := Errno 9, n_fprintf := 1\<rparr>))"
  by (simp add: DEBUG_PRINTF_def Let_def traversal_start_def)

lemma file_list_create_opendir_EACCES_message_fails:
  "file_list_create 1
     (demo_os\<lparr>opendir := (\<lambda>p. Inl EACCES), fprintf_stderr := (\<lambda>n. Some (Errno 9))\<rparr>)
     0 None (Some ''r'') 0 0 FL_SORT_NONE (Errno 0) =
   Some (Inr \<lparr>ret = - 1, out_list = Null, freed = [], out_errno = Errno 9\<rparr>)"
  by code_simp

lemma file_list_create_opendir_EACCES_message_written:
  "file_list_create 1 (demo_os\<lparr>opendir := (\<lambda>p. Inl EACCES)\<rparr>)
     0 None (Some ''r'') 0 0 FL_SORT_NONE (Errno 0) =
   Some (Inr \<lparr>ret = 0, out_list = Terminated [], freed = [], out_errno = EACCES\<rparr>)"
  by code_simp

lemma DEBUG_PRINTF_fields [simp]:
  "file_list (DEBUG_PRINTF sys st) = file_list st"
  "file_list_size_max (DEBUG_PRINTF sys st) = file_list_size_max st"
  "stat_stack (DEBUG_PRINTF sys st) = stat_stack st"
  "stat_stack_size (DEBUG_PRINTF sys st) = stat_stack_size st"
  "n_alloc (DEBUG_PRINTF sys st) = n_alloc st"
  "n_fprintf (DEBUG_PRINTF sys st) = n_fprintf st + 1"
  by (simp_all add: DEBUG_PRINTF_def)

lemma alloc_fields:
  "alloc sys st = (ok, st1) \<Longrightarrow>
     file_list st1 = file_list st \<and> file_list_size_max st1 = file_list_size_max st
     \<and> stat_stack st1 = stat_stack st \<and> stat_stack_size st1 = stat_stack_size st
     \<and> n_alloc st1 = n_alloc st + 1 \<and> ok = malloc_ok sys (n_alloc st)
     \<and> errno st1 = (if ok then errno st else ENOMEM)"
  by (auto simp: alloc_def Let_def)

lemma create_path_Some:
  "create_path sys dir file st = Inr (Some path, st1) \<Longrightarrow>
     DIR_SEPARATOR \<in> set path \<and> dir \<noteq> []
     \<and> path = (if last dir = DIR_SEPARATOR then dir @ file else dir @ DIR_SEPARATOR # file)"
proof -
  assume a: "create_path sys dir file st = Inr (Some path, st1)"
  then have d: "dir \<noteq> []" by (auto simp: create_path_def split: if_splits)
  then have "last dir = DIR_SEPARATOR \<Longrightarrow> DIR_SEPARATOR \<in> set dir"
    using last_in_set [of dir] by simp
  with a d show ?thesis
    by (cases "alloc sys st") (auto simp: create_path_def split: if_splits)
qed

lemma create_path_list:
  "create_path sys dir file st = Inr (path, st1) \<Longrightarrow> file_list st1 = file_list st"
  by (cases "alloc sys st")
    (auto simp: create_path_def dest: alloc_fields split: if_splits)

lemma file_list_add_list:
  "file_list_add sys path st = Inr (r, st1) \<Longrightarrow>
     file_list st1 = (if r = 0 then file_list st @ [path] else file_list st)"
  by (auto simp: file_list_add_def Let_def alloc_def split: if_splits)


lemma stat_stack_push_list:
  "stat_stack_push sys sb st = Inr (r, st1) \<Longrightarrow> file_list st1 = file_list st"
  by (cases "alloc sys st")
    (auto simp: stat_stack_push_def Let_def dest!: alloc_fields split: if_splits)

lemma stat_stack_push_not_null: "stat_stack_push sys sb st \<noteq> Inl NullDeref"
  by (cases "alloc sys st") (auto simp: stat_stack_push_def Let_def split: if_splits)

lemma create_path_not_null: "create_path sys dir file st \<noteq> Inl NullDeref"
  by (cases "alloc sys st") (auto simp: create_path_def split: if_splits)

lemma file_list_add_not_null: "file_list_add sys path st \<noteq> Inl NullDeref"
  by (auto simp: file_list_add_def Let_def split: if_splits prod.splits)

lemma get_file_type_paths:
  assumes "get_file_type sys flags directory dp st = Inr c"
  shows "case c of
      Failed st1 \<Rightarrow> file_list st1 = file_list st
    | Skipped st1 \<Rightarrow> file_list st1 = file_list st
    | Typed current_type sb current_path st1 \<Rightarrow>
        file_list st1 = file_list st
        \<and> (\<forall>p. current_path = Some p \<longrightarrow> DIR_SEPARATOR \<in> set p)
        \<and> (sb \<noteq> None \<longrightarrow> current_path \<noteq> None)"
proof (cases "d_type dp = DT_DIR \<or> d_type dp = DT_UNKNOWN
    \<or> (d_type dp = DT_LNK \<and> flags AND FL_FOLLOW_LINKS \<noteq> 0)")
  case False
  with assms show ?thesis by (auto simp: get_file_type_def)
next
  case True
  show ?thesis
  proof (cases "create_path sys directory (d_name dp) st")
    case (Inl e)
    with True assms show ?thesis
      by (simp add: get_file_type_def CREATE_CURRENT_PATH_def)
  next
    case (Inr x)
    obtain cp st1 where x: "x = (cp, st1)" by (cases x)
    with Inr create_path_list have l: "file_list st1 = file_list st" by blast
    show ?thesis
    proof (cases cp)
      case None
      with True assms Inr x l show ?thesis
        by (auto simp: get_file_type_def CREATE_CURRENT_PATH_def)
    next
      case (Some p)
      with Inr x create_path_Some have "DIR_SEPARATOR \<in> set p" by blast
      with True assms Inr x l Some show ?thesis
        by (auto simp: get_file_type_def CREATE_CURRENT_PATH_def split: sum.splits)
    qed
  qed
qed

lemma get_file_type_not_null: "get_file_type sys flags directory dp st \<noteq> Inl NullDeref"
  using create_path_not_null [of sys directory "d_name dp" st]
  by (auto simp: get_file_type_def CREATE_CURRENT_PATH_def
      split: sum.splits prod.splits option.splits)

lemma add_file_name_paths:
  assumes "add_file_name sys file_type_arr file_ext directory flags dp current_type
      current_path st = Inr c"
    and "\<forall>p \<in> set (file_list st). DIR_SEPARATOR \<in> set p"
    and "\<forall>p. current_path = Some p \<longrightarrow> DIR_SEPARATOR \<in> set p"
  shows "\<forall>p \<in> set (file_list (control_state c)). DIR_SEPARATOR \<in> set p"
proof (cases "current_type < length file_type_arr \<and> file_type_arr ! current_type = 1
    \<and> \<not> (case file_ext of None \<Rightarrow> False | Some regex \<Rightarrow> \<not> matches_regex (d_name dp) regex)")
  case False
  with assms show ?thesis by (auto simp: add_file_name_def split: if_splits)
next
  case True
  from True assms(1) obtain x where cc: "CREATE_CURRENT_PATH sys directory dp current_path st = Inr x"
    by (cases "CREATE_CURRENT_PATH sys directory dp current_path st")
      (auto simp: add_file_name_def)
  obtain cp st1 where x: "x = (cp, st1)" by (cases x)
  from cc x have l1: "file_list st1 = file_list st"
    by (auto simp: CREATE_CURRENT_PATH_def dest: create_path_list split: if_splits)
  show ?thesis
  proof (cases cp)
    case None
    with True assms cc x l1 show ?thesis by (auto simp: add_file_name_def)
  next
    case (Some path)
    with cc x assms(3) have sep: "DIR_SEPARATOR \<in> set path"
      by (auto simp: CREATE_CURRENT_PATH_def dest: create_path_Some split: if_splits)
    define y where "y = (if current_type = 4 \<and> flags AND FL_DIR_SEP \<noteq> 0
        then (case alloc sys st1 of (ok, st2) \<Rightarrow>
               (if ok then Some (path @ [DIR_SEPARATOR]) else None, st2))
        else (Some path, st1))"
    obtain np st2 where y: "y = (np, st2)" by (cases y)
    have l2: "file_list st2 = file_list st1" and npsep: "\<forall>q. np = Some q \<longrightarrow> DIR_SEPARATOR \<in> set q"
      using y sep unfolding y_def
      by (auto dest!: alloc_fields split: if_splits prod.splits)
    from True assms(1) cc x Some y have res: "(case np of
          None \<Rightarrow> Inr (Return st2)
        | Some new_path \<Rightarrow>
            (case file_list_add sys new_path st2 of
               Inl e \<Rightarrow> Inl e
             | Inr (r, st3) \<Rightarrow> if r = - 1 then Inr (Return st3) else Inr (Proceed st3))) = Inr c"
      unfolding y_def by (simp add: add_file_name_def)
    show ?thesis
    proof (cases np)
      case None
      with res l1 l2 assms(2) show ?thesis by auto
    next
      case (Some new_path)
      with res obtain r st3 where a: "file_list_add sys new_path st2 = Inr (r, st3)"
        and c: "c = (if r = - 1 then Return st3 else Proceed st3)"
        by (cases "file_list_add sys new_path st2") (auto split: if_splits)
      from file_list_add_list [OF a] npsep Some l1 l2 assms(2) c show ?thesis
        by (auto split: if_splits)
    qed
  qed
qed

lemma add_file_name_not_null:
  "add_file_name sys file_type_arr file_ext directory flags dp current_type current_path st
     \<noteq> Inl NullDeref"
  using create_path_not_null [of sys directory "d_name dp" st] file_list_add_not_null
  by (auto simp: add_file_name_def CREATE_CURRENT_PATH_def
      split: sum.splits prod.splits option.splits if_splits)


lemma traverse_next_directory_paths:
  assumes "traverse_next_directory recurse sys directory_depth flags sb_opt current_path st =
      Some (Inr c)"
    and "\<And>path depth s r s1. recurse path depth s = Some (Inr (r, s1)) \<Longrightarrow>
        \<forall>p \<in> set (file_list s). DIR_SEPARATOR \<in> set p \<Longrightarrow>
        \<forall>p \<in> set (file_list s1). DIR_SEPARATOR \<in> set p"
    and "\<forall>p \<in> set (file_list st). DIR_SEPARATOR \<in> set p"
  shows "\<forall>p \<in> set (file_list (control_state c)). DIR_SEPARATOR \<in> set p"
proof -
  from assms(1) obtain sb where sb: "sb_opt = Some sb"
    by (cases sb_opt) (auto simp: traverse_next_directory_def)
  from assms(1) sb obtain loop where loop: "is_directory_loop (stat_stack st) sb = Inr loop"
    by (cases "is_directory_loop (stat_stack st) sb") (auto simp: traverse_next_directory_def)
  show ?thesis
  proof (cases "loop \<or> (flags AND FL_XDEV \<noteq> 0 \<and> st_dev (hd (stat_stack st)) \<noteq> st_dev sb)")
    case True
    with assms(1,3) sb loop show ?thesis
      by (auto simp: traverse_next_directory_def split: if_splits bool.splits)
  next
    case False
    with assms(1) sb loop obtain r st1 where push: "stat_stack_push sys sb st = Inr (r, st1)"
      by (cases "stat_stack_push sys sb st") (auto simp: traverse_next_directory_def)
    from stat_stack_push_list [OF push] assms(3)
    have i1: "\<forall>p \<in> set (file_list st1). DIR_SEPARATOR \<in> set p" by simp
    show ?thesis
    proof (cases "r \<noteq> 0")
      case True
      with False assms(1) sb loop push i1 show ?thesis
        by (auto simp: traverse_next_directory_def)
    next
      case r0: False
      with False assms(1) sb loop push obtain path where path: "current_path = Some path"
        by (cases current_path) (auto simp: traverse_next_directory_def)
      define depth where "depth = (if directory_depth > 0 then directory_depth - 1
        else directory_depth)"
      from False assms(1) sb loop push r0 path obtain r2 st2 where
        rec: "recurse path depth st1 = Some (Inr (r2, st2))"
        and c: "c = (if r2 \<noteq> 0 then Return st2 else Proceed (stat_stack_pop st2))"
        unfolding depth_def
        by (cases "recurse path (if directory_depth > 0 then directory_depth - 1
            else directory_depth) st1")
          (auto simp: traverse_next_directory_def split: sum.splits if_splits)
      from assms(2) [OF rec i1] c show ?thesis
        by (auto simp: stat_stack_pop_def)
    qed
  qed
qed

lemma traverse_next_directory_not_null:
  assumes "\<And>path depth s. recurse path depth s \<noteq> Some (Inl NullDeref)"
    and "sb_opt \<noteq> None \<longrightarrow> current_path \<noteq> None"
  shows "traverse_next_directory recurse sys directory_depth flags sb_opt current_path st
      \<noteq> Some (Inl NullDeref)"
  using assms stat_stack_push_not_null [of sys _ st]
  by (auto simp: traverse_next_directory_def is_directory_loop_def
      split: option.splits sum.splits bool.splits prod.splits if_splits)

lemma readdir_loop_body_paths:
  assumes "readdir_loop_body recurse sys file_type_arr file_ext directory directory_depth
      flags dp st = Some (Inr c)"
    and "\<And>path depth s r s1. recurse path depth s = Some (Inr (r, s1)) \<Longrightarrow>
        \<forall>p \<in> set (file_list s). DIR_SEPARATOR \<in> set p \<Longrightarrow>
        \<forall>p \<in> set (file_list s1). DIR_SEPARATOR \<in> set p"
    and "\<forall>p \<in> set (file_list st). DIR_SEPARATOR \<in> set p"
  shows "\<forall>p \<in> set (file_list (control_state c)). DIR_SEPARATOR \<in> set p"
proof (cases "is_current_or_parent (d_name dp)")
  case True
  with assms(1,3) show ?thesis by (auto simp: readdir_loop_body_def)
next
  case False
  with assms(1) obtain g where g: "get_file_type sys flags directory dp st = Inr g"
    by (cases "get_file_type sys flags directory dp st") (auto simp: readdir_loop_body_def)
  note gp = get_file_type_paths [OF g]
  show ?thesis
  proof (cases g)
    case (Failed st1)
    with False assms(1,3) g gp show ?thesis by (auto simp: readdir_loop_body_def)
  next
    case (Skipped st1)
    with False assms(1,3) g gp show ?thesis by (auto simp: readdir_loop_body_def)
  next
    case (Typed current_type sb current_path st1)
    with gp assms(3) have i1: "\<forall>p \<in> set (file_list st1). DIR_SEPARATOR \<in> set p"
      and cp: "\<forall>p. current_path = Some p \<longrightarrow> DIR_SEPARATOR \<in> set p" by auto
    define t where "t = (if directory_depth \<noteq> 0 \<and> current_type = 4
        then traverse_next_directory recurse sys directory_depth flags sb current_path st1
        else Some (Inr (Proceed st1)))"
    from False assms(1) g Typed obtain c1 where t1: "t = Some (Inr c1)"
      unfolding t_def
      by (cases "if directory_depth \<noteq> 0 \<and> current_type = 4
          then traverse_next_directory recurse sys directory_depth flags sb current_path st1
          else Some (Inr (Proceed st1))")
        (auto simp: readdir_loop_body_def split: sum.splits)
    have i2: "\<forall>p \<in> set (file_list (control_state c1)). DIR_SEPARATOR \<in> set p"
    proof (cases "directory_depth \<noteq> 0 \<and> current_type = 4")
      case True
      with t1 have "traverse_next_directory recurse sys directory_depth flags sb current_path st1
          = Some (Inr c1)" by (simp add: t_def)
      from traverse_next_directory_paths [OF this assms(2) i1] show ?thesis by simp
    next
      case False
      with t1 i1 show ?thesis by (auto simp: t_def)
    qed
    from False assms(1) g Typed t1 have res: "(case c1 of
          Return st2 \<Rightarrow> Some (Inr (Return st2))
        | Continue st2 \<Rightarrow> Some (Inr (Continue st2))
        | Proceed st2 \<Rightarrow>
            Some (add_file_name sys file_type_arr file_ext directory flags dp current_type
                    current_path st2)) = Some (Inr c)"
      unfolding t_def by (simp add: readdir_loop_body_def)
    show ?thesis
    proof (cases c1)
      case (Return st2)
      with res i2 show ?thesis by auto
    next
      case (Continue st2)
      with res i2 show ?thesis by auto
    next
      case (Proceed st2)
      with res have "add_file_name sys file_type_arr file_ext directory flags dp current_type
          current_path st2 = Inr c" by simp
      from add_file_name_paths [OF this _ cp] i2 Proceed show ?thesis by simp
    qed
  qed
qed

lemma readdir_loop_body_not_null:
  assumes "\<And>path depth s. recurse path depth s \<noteq> Some (Inl NullDeref)"
  shows "readdir_loop_body recurse sys file_type_arr file_ext directory directory_depth
      flags dp st \<noteq> Some (Inl NullDeref)"
proof (cases "is_current_or_parent (d_name dp)")
  case True
  then show ?thesis by (simp add: readdir_loop_body_def)
next
  case False
  show ?thesis
  proof (cases "get_file_type sys flags directory dp st")
    case (Inl e)
    with False get_file_type_not_null [of sys flags directory dp st] show ?thesis
      by (simp add: readdir_loop_body_def)
  next
    case (Inr g)
    show ?thesis
    proof (cases g)
      case (Typed current_type sb current_path st1)
      with get_file_type_paths [OF Inr] have "sb \<noteq> None \<longrightarrow> current_path \<noteq> None" by simp
      note t = traverse_next_directory_not_null [OF assms this]
      from False Inr Typed show ?thesis
        by (auto simp: readdir_loop_body_def t add_file_name_not_null
            split: option.splits sum.splits control.splits)
    qed (use False Inr in \<open>auto simp: readdir_loop_body_def\<close>)
  qed
qed

lemma readdir_loop_paths:
  assumes "readdir_loop recurse sys file_type_arr file_ext directory directory_depth flags
      entries st = Some (Inr (r, st1))"
    and "\<And>path depth s r s1. recurse path depth s = Some (Inr (r, s1)) \<Longrightarrow>
        \<forall>p \<in> set (file_list s). DIR_SEPARATOR \<in> set p \<Longrightarrow>
        \<forall>p \<in> set (file_list s1). DIR_SEPARATOR \<in> set p"
    and "\<forall>p \<in> set (file_list st). DIR_SEPARATOR \<in> set p"
  shows "\<forall>p \<in> set (file_list st1). DIR_SEPARATOR \<in> set p"
  using assms(1,3)
proof (induction entries arbitrary: st)
  case Nil
  then show ?case by simp
next
  case (Cons dp entries)
  from Cons.prems(1) obtain c where
    body: "readdir_loop_body recurse sys file_type_arr file_ext directory directory_depth
      flags dp st = Some (Inr c)"
    by (auto split: option.splits sum.splits)
  note i = readdir_loop_body_paths [OF body assms(2) Cons.prems(2)]
  show ?case
  proof (cases c)
    case (Return st2)
    with Cons.prems(1) body i show ?thesis by auto
  next
    case (Continue st2)
    with Cons.prems(1) body have "readdir_loop recurse sys file_type_arr file_ext directory
        directory_depth flags entries st2 = Some (Inr (r, st1))" by simp
    from Cons.IH [OF this] i Continue show ?thesis by simp
  next
    case (Proceed st2)
    with Cons.prems(1) body have "readdir_loop recurse sys file_type_arr file_ext directory
        directory_depth flags entries st2 = Some (Inr (r, st1))" by simp
    from Cons.IH [OF this] i Proceed show ?thesis by simp
  qed
qed

lemma readdir_loop_not_null:
  assumes "\<And>path depth s. recurse path depth s \<noteq> Some (Inl NullDeref)"
  shows "readdir_loop recurse sys file_type_arr file_ext directory directory_depth flags
      entries st \<noteq> Some (Inl NullDeref)"
proof (induction entries arbitrary: st)
  case Nil
  then show ?case by simp
next
  case (Cons dp entries)
  note b = readdir_loop_body_not_null [OF assms]
  from Cons.IH show ?case
    by (auto simp: b split: option.splits sum.splits control.splits)
qed

lemma parse_file_tree_paths:
  "parse_file_tree fuel sys file_type_arr file_ext directory directory_depth flags st =
      Some (Inr (r, st1)) \<Longrightarrow>
   \<forall>p \<in> set (file_list st). DIR_SEPARATOR \<in> set p \<Longrightarrow>
   \<forall>p \<in> set (file_list st1). DIR_SEPARATOR \<in> set p"
proof (induction fuel arbitrary: directory directory_depth st r st1)
  case 0
  then show ?case by simp
next
  case (Suc fuel)
  show ?case
  proof (cases "opendir sys directory")
    case (Inl e)
    with Suc.prems show ?thesis by (auto simp: Let_def)
  next
    case (Inr entries)
    with Suc.prems(1) have "readdir_loop
        (\<lambda>path depth s. parse_file_tree fuel sys file_type_arr file_ext path depth flags s)
        sys file_type_arr file_ext directory directory_depth flags entries st =
        Some (Inr (r, st1))" by simp
    from readdir_loop_paths [OF this _ Suc.prems(2)] Suc.IH show ?thesis by blast
  qed
qed

lemma parse_file_tree_not_null:
  "parse_file_tree fuel sys file_type_arr file_ext directory directory_depth flags st
     \<noteq> Some (Inl NullDeref)"
proof (induction fuel arbitrary: directory directory_depth st)
  case 0
  then show ?case by simp
next
  case (Suc fuel)
  have "readdir_loop
      (\<lambda>path depth s. parse_file_tree fuel sys file_type_arr file_ext path depth flags s)
      sys file_type_arr file_ext directory directory_depth flags entries st
      \<noteq> Some (Inl NullDeref)" for entries
    by (rule readdir_loop_not_null) (rule Suc.IH)
  then show ?case by (auto simp: Let_def split: sum.splits)
qed


subsection \<open>Sorting a list of paths\<close>

lemma qsort_insert_set: "qsort_insert compar x ys = Inr zs \<Longrightarrow> set zs = insert x (set ys)"
proof (induction ys arbitrary: zs)
  case Nil
  then show ?case by auto
next
  case (Cons y ys)
  from Cons.prems obtain r where r: "compar x y = Inr r"
    by (cases "compar x y") auto
  show ?case
  proof (cases "r \<le> 0")
    case True
    with Cons.prems r show ?thesis by auto
  next
    case False
    with Cons.prems r obtain zs1 where z: "qsort_insert compar x ys = Inr zs1" "zs = y # zs1"
      by (cases "qsort_insert compar x ys") auto
    from Cons.IH [OF z(1)] z(2) show ?thesis by (simp add: insert_commute)
  qed
qed

lemma qsort_set: "qsort compar xs = Inr ys \<Longrightarrow> set ys = set xs"
  by (induction xs arbitrary: ys) (auto split: sum.splits dest: qsort_insert_set)

lemma qsort_insert_length: "qsort_insert compar x ys = Inr zs \<Longrightarrow> length zs = Suc (length ys)"
  by (induction ys arbitrary: zs) (auto split: sum.splits if_splits)

lemma qsort_length: "qsort compar xs = Inr ys \<Longrightarrow> length ys = length xs"
  by (induction xs arbitrary: ys) (auto split: sum.splits dest: qsort_insert_length)

lemma qsort_insert_not_null:
  "\<forall>y \<in> set ys. compar x y \<noteq> Inl NullDeref \<Longrightarrow> qsort_insert compar x ys \<noteq> Inl NullDeref"
  by (induction ys) (auto split: sum.splits if_splits)

lemma qsort_not_null:
  "\<forall>x \<in> set xs. \<forall>y \<in> set xs. compar x y \<noteq> Inl NullDeref \<Longrightarrow>
   qsort compar xs \<noteq> Inl NullDeref"
proof (induction xs)
  case Nil
  then show ?case by simp
next
  case (Cons x xs)
  then have ih: "qsort compar xs \<noteq> Inl NullDeref" by simp
  show ?case
  proof (cases "qsort compar xs")
    case (Inl e)
    with ih show ?thesis by simp
  next
    case (Inr ys)
    from qsort_set [OF Inr] Cons.prems have "\<forall>y \<in> set ys. compar x y \<noteq> Inl NullDeref" by simp
    from qsort_insert_not_null [where compar = compar and x = x and ys = ys, OF this] Inr
    show ?thesis by simp
  qed
qed

lemma strcmp_default_not_null:
  "strcmp_default_do t a b \<noteq> Inl NullDeref" "strcmp_default_while t a b \<noteq> Inl NullDeref"
  by (induction t a b and t a b rule: strcmp_default_do_strcmp_default_while.induct)
    (auto simp: Let_def)

lemma strcmp_natural_not_null:
  "strcmp_natural_do t a b \<noteq> Inl NullDeref" "strcmp_natural_while t a b \<noteq> Inl NullDeref"
  by (induction t a b and t a b rule: strcmp_natural_do_strcmp_natural_while.induct)
    (auto simp: Let_def split: option.splits)

lemma strcmp_not_null: "strcmp a b \<noteq> Inl NullDeref"
  by (induction a b rule: strcmp.induct) auto

lemma strrchr_Some: "c \<in> set s \<Longrightarrow> \<exists>i. strrchr s c = Some i"
  using strrchr_None_iff [of s c] by (cases "strrchr s c") auto

lemma qsort_compar_separators:
  assumes "DIR_SEPARATOR \<in> set p" "DIR_SEPARATOR \<in> set q"
  shows "\<exists>sep1 sep2. strrchr p DIR_SEPARATOR = Some sep1 \<and> strrchr q DIR_SEPARATOR = Some sep2
    \<and> qsort_compar compar_fn p q =
        (case compar_fn ((p @ [NUL])[sep1 := NUL]) ((q @ [NUL])[sep2 := NUL]) of
           Inl e \<Rightarrow> Inl e
         | Inr result \<Rightarrow>
             if result = 0
             then compar_fn (drop (sep1 + 1) (p @ [NUL])) (drop (sep2 + 1) (q @ [NUL]))
             else Inr result)"
  using strrchr_Some [OF assms(1)] strrchr_Some [OF assms(2)]
  by (auto simp: qsort_compar_def)

lemma get_compar_fn_not_null:
  assumes "get_compar_fn coll sort_method = Some compar" "sort_method \<noteq> FL_SORT_COLLATE"
    and "DIR_SEPARATOR \<in> set p" "DIR_SEPARATOR \<in> set q"
  shows "compar p q \<noteq> Inl NullDeref"
proof -
  have "qsort_compar base p q \<noteq> Inl NullDeref" if b: "\<And>a b. base a b \<noteq> Inl NullDeref" for base
  proof -
    from qsort_compar_separators [OF assms(3,4), of base] obtain sep1 sep2 where
      q: "qsort_compar base p q =
        (case base ((p @ [NUL])[sep1 := NUL]) ((q @ [NUL])[sep2 := NUL]) of
           Inl e \<Rightarrow> Inl e
         | Inr result \<Rightarrow>
             if result = 0
             then base (drop (sep1 + 1) (p @ [NUL])) (drop (sep2 + 1) (q @ [NUL]))
             else Inr result)" by blast
    show ?thesis
      unfolding q using b by (auto split: sum.splits)
  qed
  note nn = this
  from get_compar_fn_base [OF assms(1)] have c: "compar = qsort_compar (case sort_method of
        FL_SORT_DEFAULT \<Rightarrow> strcmp_default | FL_SORT_NATURAL \<Rightarrow> strcmp_natural
      | FL_SORT_COLLATE \<Rightarrow> coll | _ \<Rightarrow> strcmp)" .
  show ?thesis
  proof (cases sort_method)
    case FL_SORT_DEFAULT
    have "qsort_compar strcmp_default p q \<noteq> Inl NullDeref"
      by (rule nn) (simp add: strcmp_default_def strcmp_default_not_null)
    with c FL_SORT_DEFAULT show ?thesis by simp
  next
    case FL_SORT_NATURAL
    have "qsort_compar strcmp_natural p q \<noteq> Inl NullDeref"
      by (rule nn) (simp add: strcmp_natural_def strcmp_natural_not_null)
    with c FL_SORT_NATURAL show ?thesis by simp
  next
    case FL_SORT_ASCII
    have "qsort_compar strcmp p q \<noteq> Inl NullDeref"
      by (rule nn) (simp add: strcmp_not_null)
    with c FL_SORT_ASCII show ?thesis by simp
  next
    case FL_SORT_NONE
    with assms(1) show ?thesis by simp
  next
    case FL_SORT_COLLATE
    with assms(2) show ?thesis by simp
  qed
qed

subsection \<open>The list that \<open>file_list_create\<close> builds\<close>

lemma file_list_create_finish_list:
  assumes "file_list_create_finish sys sort_method r st = Inr res"
    and "out_list res = Terminated xs \<or> out_list res = Unterminated xs"
  shows "set xs = set (file_list st) \<and> length xs = length (file_list st)"
proof (cases "alloc sys st")
  case (Pair ok st1)
  from alloc_fields [OF Pair] have l: "file_list st1 = file_list st" by simp
  from assms Pair l show ?thesis
    by (auto simp: file_list_create_finish_def
        split: if_splits option.splits sum.splits dest: qsort_set qsort_length)
qed

lemma file_list_create_finish_not_null:
  assumes "sort_method \<noteq> FL_SORT_COLLATE" "\<forall>p \<in> set (file_list st). DIR_SEPARATOR \<in> set p"
  shows "file_list_create_finish sys sort_method r st \<noteq> Inl NullDeref"
proof (cases "alloc sys st")
  case (Pair ok st1)
  from alloc_fields [OF Pair] have l: "file_list st1 = file_list st" by simp
  have "qsort compar (file_list st) \<noteq> Inl NullDeref"
    if "get_compar_fn (strcoll sys) sort_method = Some compar" for compar
    using get_compar_fn_not_null [OF that assms(1)] assms(2) by (intro qsort_not_null) blast
  with Pair l show ?thesis
    by (auto simp: file_list_create_finish_def split: if_splits option.splits sum.splits)
qed


text \<open>
  A call of \<open>file_list_create\<close> that returns has either failed before the traversal, or
  has run \<open>parse_file_tree\<close> on the cleaned directory with an empty list of the initial
  size and a stat stack that holds the start directory.
\<close>

lemma file_list_create_cases:
  assumes "file_list_create fuel sys file_type regex_pattern dir depth flags sort_method errno0
      = Some x"
  obtains (early) res where "x = Inr res" "ret res = - 1"
      "out_list res = Null \<or> out_list res = Dangling" "freed res = []"
  | (traversal) file_ext d start_dir sb st4 y where
      "dir = Some d" "d \<noteq> []" "start_dir = remove_trailing (omit_separators False d)"
      "stat sys d = Inr sb"
      "file_list st4 = []" "file_list_size_max st4 = FL_INITIAL_LIST_SIZE"
      "stat_stack st4 = [sb]" "stat_stack_size st4 = STAT_STACK_INITIAL_SIZE"
      "n_alloc st4 = 3"
      "malloc_ok sys 0" "malloc_ok sys 1" "malloc_ok sys 2"
      "case regex_pattern of None \<Rightarrow> file_ext = None
       | Some pattern \<Rightarrow>
           \<exists>regex. file_ext = Some regex \<and> regcomp sys pattern (regex_flags flags) = Some regex"
      "parse_file_tree fuel sys (create_file_type_arr file_type) file_ext start_dir depth flags st4
         = Some y"
      "x = (case y of Inl e \<Rightarrow> Inl e
            | Inr (r, st5) \<Rightarrow> file_list_create_finish sys sort_method r st5)"
proof -
  define st0 where "st0 = \<lparr>file_list = [], file_list_size_max = FL_INITIAL_LIST_SIZE,
      stat_stack = [], stat_stack_size = 0, errno = errno0, n_alloc = 0,
                      n_fprintf = 0\<rparr>"
  obtain ok1 st1 where a1: "alloc sys st0 = (ok1, st1)" by (cases "alloc sys st0")
  note f1 = alloc_fields [OF a1]
  note fc = assms [unfolded file_list_create_def, folded st0_def, unfolded a1, simplified]
  show ?thesis
  proof (cases ok1)
    case False
    with fc show ?thesis by (intro early [of "projr x"]) auto
  next
    case ok1: True
    define rx where "rx = (case regex_pattern of
        None \<Rightarrow> Some None
      | Some pattern \<Rightarrow>
          (case regcomp sys pattern (regex_flags flags) of
             None \<Rightarrow> None
           | Some regex \<Rightarrow> Some (Some regex)))"
    show ?thesis
    proof (cases rx)
      case None
      with fc ok1 show ?thesis unfolding rx_def by (intro early [of "projr x"]) auto
    next
      case (Some file_ext)
      have fe: "case regex_pattern of None \<Rightarrow> file_ext = None
          | Some pattern \<Rightarrow>
              \<exists>regex. file_ext = Some regex \<and> regcomp sys pattern (regex_flags flags) = Some regex"
      proof (cases regex_pattern)
        case None
        with Some show ?thesis by (simp add: rx_def)
      next
        case pat: (Some pattern)
        with Some show ?thesis
          by (cases "regcomp sys pattern (regex_flags flags)") (auto simp: rx_def)
      qed
      obtain cd st2 where c2: "create_clean_dir sys dir st1 = (cd, st2)"
        by (cases "create_clean_dir sys dir st1")
      show ?thesis
      proof (cases cd)
        case None
        with fc ok1 Some c2 show ?thesis
          unfolding rx_def [symmetric] by (intro early [of "projr x"]) auto
      next
        case sd: (Some start_dir)
        from c2 sd obtain d where d: "dir = Some d" "d \<noteq> []"
          by (cases dir) (auto simp: create_clean_dir_def split: if_splits)
        obtain ok2 where a2: "alloc sys st1 = (ok2, st2)"
          using c2 sd d by (cases "alloc sys st1") (auto simp: create_clean_dir_def split: if_splits)
        note f2 = alloc_fields [OF a2]
        from c2 sd d a2 have ok2: "ok2" and sdir: "start_dir = remove_trailing (omit_separators False d)"
          by (auto simp: create_clean_dir_def split: if_splits)
        obtain ok3 st3a where a3: "alloc sys st2 = (ok3, st3a)" by (cases "alloc sys st2")
        note f3 = alloc_fields [OF a3]
        show ?thesis
        proof (cases ok3)
          case False
          with fc ok1 Some c2 sd a3 show ?thesis
            unfolding rx_def [symmetric]
            by (intro early [of "projr x"]) (auto simp: stat_stack_create_def)
        next
          case ok3: True
          define st3 where "st3 = st3a\<lparr>stat_stack := [], stat_stack_size := STAT_STACK_INITIAL_SIZE\<rparr>"
          have c3: "stat_stack_create sys st2 = (0, st3)"
            using a3 ok3 by (simp add: stat_stack_create_def st3_def)
          show ?thesis
          proof (cases "stat sys d")
            case (Inl e)
            with fc ok1 Some c2 sd c3 d show ?thesis
              unfolding rx_def [symmetric] by (intro early [of "projr x"]) auto
          next
            case (Inr sb)
            define st4 where "st4 = st3\<lparr>stat_stack := [sb]\<rparr>"
            have p4: "stat_stack_push sys sb st3 = Inr (0, st4)"
              by (simp add: stat_stack_push_def st3_def st4_def STAT_STACK_INITIAL_SIZE_def)
            from fc ok1 Some c2 sd c3 d Inr p4 obtain y where
              y: "parse_file_tree fuel sys (create_file_type_arr file_type) file_ext start_dir depth
                flags st4 = Some y"
              and x: "x = (case y of Inl e \<Rightarrow> Inl e
                  | Inr (r, st5) \<Rightarrow> file_list_create_finish sys sort_method r st5)"
              unfolding rx_def [symmetric]
              by (cases "parse_file_tree fuel sys (create_file_type_arr file_type) file_ext
                  start_dir depth flags st4")
                (auto simp: Let_def split: sum.splits)
            show ?thesis
            proof (rule traversal [OF d sdir Inr _ _ _ _ _ _ _ _ fe y x])
              show "file_list st4 = []" "file_list_size_max st4 = FL_INITIAL_LIST_SIZE"
                "stat_stack st4 = [sb]" "stat_stack_size st4 = STAT_STACK_INITIAL_SIZE"
                "n_alloc st4 = 3"
                using f1 f2 f3 by (simp_all add: st4_def st3_def st0_def)
              show "malloc_ok sys 0" "malloc_ok sys 1" "malloc_ok sys 2"
                using f1 f2 f3 ok1 ok2 ok3 by (simp_all add: st0_def numeral_2_eq_2)
            qed
          qed
        qed
      qed
    qed
  qed
qed


lemma omit_separators_nonempty: "d \<noteq> [] \<Longrightarrow> omit_separators False d \<noteq> []"
  by (cases d) auto

lemma remove_trailing_nonempty: "s \<noteq> [] \<Longrightarrow> remove_trailing s \<noteq> []"
proof (induction s rule: remove_trailing.induct)
  case (1 clean_dir)
  show ?case
  proof (cases "1 < length clean_dir \<and> last clean_dir = DIR_SEPARATOR")
    case True
    then have "butlast clean_dir \<noteq> []" by (cases clean_dir) auto
    with 1 True show ?thesis by (subst remove_trailing.simps) simp
  next
    case False
    with 1 show ?thesis by (subst remove_trailing.simps) auto
  qed
qed

text \<open>
  C10. Every path in a list that \<open>file_list_create\<close> returns holds a directory
  separator: \<open>create_path\<close> joins a non-empty directory and the name with one (the cleaned
  start directory is never empty). So for any two elements \<open>strrchr\<close> finds a separator in
  each, and \<open>qsort_compar\<close> takes neither of its null-pointer branches; with a sort method
  other than the locale's, no call of \<open>file_list_create\<close> dereferences a null pointer at
  all.
\<close>

theorem built_paths_have_separator:
  "(file_list_create fuel sys file_type regex_pattern dir depth flags sort_method errno0 =
      Some (Inr res)
    \<and> (out_list res = Terminated xs \<or> out_list res = Unterminated xs) \<longrightarrow>
      (\<forall>p \<in> set xs. DIR_SEPARATOR \<in> set p)
    \<and> (\<forall>p \<in> set xs. \<forall>q \<in> set xs. \<forall>compar_fn. \<exists>sep1 sep2.
          strrchr p DIR_SEPARATOR = Some sep1 \<and> strrchr q DIR_SEPARATOR = Some sep2
        \<and> qsort_compar compar_fn p q =
            (case compar_fn ((p @ [NUL])[sep1 := NUL]) ((q @ [NUL])[sep2 := NUL]) of
               Inl e \<Rightarrow> Inl e
             | Inr result \<Rightarrow>
                 if result = 0
                 then compar_fn (drop (sep1 + 1) (p @ [NUL])) (drop (sep2 + 1) (q @ [NUL]))
                 else Inr result)))
   \<and> (sort_method \<noteq> FL_SORT_COLLATE \<longrightarrow>
        file_list_create fuel sys file_type regex_pattern dir depth flags sort_method errno0
          \<noteq> Some (Inl NullDeref))
   \<and> (\<forall>d. d \<noteq> [] \<longrightarrow> remove_trailing (omit_separators False d) \<noteq> [])
   \<and> (\<forall>directory file st path st1.
        create_path sys directory file st = Inr (Some path, st1) \<longrightarrow>
          directory \<noteq> [] \<and> DIR_SEPARATOR \<in> set path)"
proof (intro conjI impI allI)
  assume a: "file_list_create fuel sys file_type regex_pattern dir depth flags sort_method errno0 =
      Some (Inr res)
    \<and> (out_list res = Terminated xs \<or> out_list res = Unterminated xs)"
  then have c: "file_list_create fuel sys file_type regex_pattern dir depth flags sort_method
      errno0 = Some (Inr res)" and o: "out_list res = Terminated xs \<or> out_list res = Unterminated xs"
    by simp_all
  from c show sep: "\<forall>p \<in> set xs. DIR_SEPARATOR \<in> set p"
  proof (cases rule: file_list_create_cases)
    case (early res1)
    with o show ?thesis by auto
  next
    case (traversal file_ext d start_dir sb st4 y)
    from traversal(15) obtain r st5 where y: "y = Inr (r, st5)"
      and f: "file_list_create_finish sys sort_method r st5 = Inr res"
      by (cases y) (auto split: prod.splits)
    from parse_file_tree_paths [OF traversal(14) [unfolded y]] traversal(5)
    have "\<forall>p \<in> set (file_list st5). DIR_SEPARATOR \<in> set p" by simp
    with file_list_create_finish_list [OF f o] show ?thesis by simp
  qed
  show "\<forall>p \<in> set xs. \<forall>q \<in> set xs. \<forall>compar_fn. \<exists>sep1 sep2.
          strrchr p DIR_SEPARATOR = Some sep1 \<and> strrchr q DIR_SEPARATOR = Some sep2
        \<and> qsort_compar compar_fn p q =
            (case compar_fn ((p @ [NUL])[sep1 := NUL]) ((q @ [NUL])[sep2 := NUL]) of
               Inl e \<Rightarrow> Inl e
             | Inr result \<Rightarrow>
                 if result = 0
                 then compar_fn (drop (sep1 + 1) (p @ [NUL])) (drop (sep2 + 1) (q @ [NUL]))
                 else Inr result)"
    using sep qsort_compar_separators by blast
next
  assume m: "sort_method \<noteq> FL_SORT_COLLATE"
  show "file_list_create fuel sys file_type regex_pattern dir depth flags sort_method errno0
      \<noteq> Some (Inl NullDeref)"
  proof
    assume "file_list_create fuel sys file_type regex_pattern dir depth flags sort_method errno0
      = Some (Inl NullDeref)"
    then show False
    proof (cases rule: file_list_create_cases)
      case (early res1)
      then show ?thesis by simp
    next
      case (traversal file_ext d start_dir sb st4 y)
      show ?thesis
      proof (cases y)
        case (Inl e)
        with traversal(14,15) parse_file_tree_not_null show ?thesis by auto
      next
        case (Inr z)
        obtain r st5 where z: "z = (r, st5)" by (cases z)
        from parse_file_tree_paths [OF traversal(14) [unfolded Inr z]] traversal(5)
        have "\<forall>p \<in> set (file_list st5). DIR_SEPARATOR \<in> set p" by simp
        from file_list_create_finish_not_null [OF m this] traversal(15) Inr z
        show ?thesis by auto
      qed
    qed
  qed
next
  fix d :: string
  assume "d \<noteq> []"
  then show "remove_trailing (omit_separators False d) \<noteq> []"
    by (intro remove_trailing_nonempty omit_separators_nonempty)
next
  fix directory name st path st1
  assume "create_path sys directory name st = Inr (Some path, st1)"
  from create_path_Some [OF this]
  show "directory \<noteq> []" "DIR_SEPARATOR \<in> set path" by blast+
qed

lemma demo_os_default_listing:
  "file_list_create 2 demo_os 0 None (Some ''r'') (- 1) 0 FL_SORT_DEFAULT (Errno 0) =
     Some (Inr \<lparr>ret = 7,
       out_list = Terminated [''r/a.txt'', ''r/mnt'', ''r/self'', ''r/sub'', ''r/mnt/c.txt'',
         ''r/sub/b.txt'', ''r/sub/B.txt''],
       freed = [], out_errno = Errno 0\<rparr>)"
  by (simp add: file_list_create_def alloc_def demo_os_def create_file_type_arr_def
      create_clean_dir_def remove_trailing.simps
      stat_stack_create_def stat_stack_push_def stat_stack_pop_def STAT_STACK_INITIAL_SIZE_def
      FL_INITIAL_LIST_SIZE_def readdir_loop_body_def is_current_or_parent_def
      get_file_type_def CREATE_CURRENT_PATH_def create_path_def DT_DIR_def DT_UNKNOWN_def
      DT_LNK_def FL_FOLLOW_LINKS_def FL_XDEV_def DIR_SEPARATOR_def add_file_name_def
      file_list_add_def FL_MAX_LIST_SIZE_def FL_DIR_SEP_def file_list_create_finish_def
      qsort_compar_default_def qsort_compar_def NUL_def strcmp_default_def uc_def tolower_def
      numeral_2_eq_2 is_directory_loop_def traverse_next_directory_def)

theorem built_paths_have_separator_witness:
  "file_list_create 2 demo_os 0 None (Some ''r'') (- 1) 0 FL_SORT_DEFAULT (Errno 0) =
     Some (Inr \<lparr>ret = 7,
       out_list = Terminated [''r/a.txt'', ''r/mnt'', ''r/self'', ''r/sub'', ''r/mnt/c.txt'',
         ''r/sub/b.txt'', ''r/sub/B.txt''],
       freed = [], out_errno = Errno 0\<rparr>)
   \<and> FL_SORT_DEFAULT \<noteq> FL_SORT_COLLATE
   \<and> DIR_SEPARATOR \<in> set ''r/a.txt'' \<and> DIR_SEPARATOR \<in> set ''r/mnt''
   \<and> DIR_SEPARATOR \<in> set ''r/self'' \<and> DIR_SEPARATOR \<in> set ''r/sub''
   \<and> DIR_SEPARATOR \<in> set ''r/mnt/c.txt'' \<and> DIR_SEPARATOR \<in> set ''r/sub/b.txt''
   \<and> DIR_SEPARATOR \<in> set ''r/sub/B.txt''
   \<and> file_list_create 2 demo_os 0 None (Some ''r'') (- 1) 0 FL_SORT_DEFAULT (Errno 0)
        \<noteq> Some (Inl NullDeref)"
proof -
  note inst = built_paths_have_separator [of 2 demo_os 0 None "Some ''r''" "- 1" 0
      FL_SORT_DEFAULT "Errno 0"
      "\<lparr>ret = 7, out_list = Terminated [''r/a.txt'', ''r/mnt'', ''r/self'', ''r/sub'',
        ''r/mnt/c.txt'', ''r/sub/b.txt'', ''r/sub/B.txt''], freed = [], out_errno = Errno 0\<rparr>"
      "[''r/a.txt'', ''r/mnt'', ''r/self'', ''r/sub'', ''r/mnt/c.txt'', ''r/sub/b.txt'',
        ''r/sub/B.txt'']"]
  from inst demo_os_default_listing
  have "\<forall>p \<in> set [''r/a.txt'', ''r/mnt'', ''r/self'', ''r/sub'', ''r/mnt/c.txt'',
      ''r/sub/b.txt'', ''r/sub/B.txt'']. DIR_SEPARATOR \<in> set p"
    by (elim conjE) simp
  moreover from inst
  have "file_list_create 2 demo_os 0 None (Some ''r'') (- 1) 0 FL_SORT_DEFAULT (Errno 0)
      \<noteq> Some (Inl NullDeref)"
    by (elim conjE) simp
  ultimately show ?thesis using demo_os_default_listing by simp
qed

subsection \<open>Directories on the stat stack and on other devices\<close>

text \<open>
  The loop check sits inside \<open>if (directory_depth && current_type == 4)\<close>. With a
  remaining depth of 0 it is not made: in \<open>demo_os\<close>, with links followed, \<open>r/self\<close> is a
  directory with the device and inode of \<open>r\<close>, which is on the stat stack, and a call with
  depth 0 lists it.
\<close>

theorem loop_guard_entry_listed_at_depth_0:
  "file_list_create 1 demo_os 0 None (Some ''r'') 0 FL_FOLLOW_LINKS FL_SORT_DEFAULT (Errno 0) =
     Some (Inr \<lparr>ret = 4, out_list = Terminated [''r/a.txt'', ''r/mnt'', ''r/self'', ''r/sub''],
                freed = [], out_errno = Errno 0\<rparr>)
   \<and> stat demo_os ''r'' = Inr \<lparr>st_dev = 1, st_ino = 10, st_mode = 16877\<rparr>
   \<and> stat demo_os ''r/self'' = Inr \<lparr>st_dev = 1, st_ino = 10, st_mode = 16877\<rparr>
   \<and> is_directory_loop [\<lparr>st_dev = 1, st_ino = 10, st_mode = 16877\<rparr>]
         \<lparr>st_dev = 1, st_ino = 10, st_mode = 16877\<rparr> = Inr True
   \<and> (16877 div 4096) mod 16 = (4 :: nat)"
  by (simp add: file_list_create_def alloc_def demo_os_def create_file_type_arr_def
      create_clean_dir_def remove_trailing.simps
      stat_stack_create_def stat_stack_push_def stat_stack_pop_def STAT_STACK_INITIAL_SIZE_def
      FL_INITIAL_LIST_SIZE_def readdir_loop_body_def is_current_or_parent_def
      get_file_type_def CREATE_CURRENT_PATH_def create_path_def DT_DIR_def DT_UNKNOWN_def
      DT_LNK_def FL_FOLLOW_LINKS_def FL_XDEV_def DIR_SEPARATOR_def add_file_name_def
      file_list_add_def FL_MAX_LIST_SIZE_def FL_DIR_SEP_def file_list_create_finish_def
      qsort_compar_default_def qsort_compar_def NUL_def strcmp_default_def uc_def tolower_def
      is_directory_loop_def traverse_next_directory_def)

text \<open>
  C9, for a remaining depth other than 0. Let the entry be classified as a directory,
  with the stat buffer \<open>sb\<close>. If the device and inode of \<open>sb\<close> are on the stat stack, the
  body of the loop ends with \<open>continue\<close>: the list and the stack are as before, whatever
  the type filter, the pattern and the recursion are. If they are not, and
  \<open>FL_XDEV\<close> is set and the device differs from that of the start directory, the entry is
  not descended into and goes on to "Add file name to file list" as with depth 0, from
  the state that the debug message leaves; with every type enabled, no pattern and room
  in the list, its path is appended. (The debug message of either case leaves the list and
  the stack alone.)
\<close>

theorem loop_guard_and_other_device:
  assumes "\<not> is_current_or_parent (d_name dp)"
    and "get_file_type sys flags directory dp st = Inr (Typed 4 (Some sb) current_path st1)"
    and "directory_depth \<noteq> 0"
  shows "(is_directory_loop (stat_stack st1) sb = Inr True \<longrightarrow>
        readdir_loop_body recurse sys file_type_arr file_ext directory directory_depth flags dp st
          = Some (Inr (Continue (DEBUG_PRINTF sys st1)))
      \<and> file_list (DEBUG_PRINTF sys st1) = file_list st
      \<and> stat_stack (DEBUG_PRINTF sys st1) = stat_stack st)
    \<and> (is_directory_loop (stat_stack st1) sb = Inr False
        \<and> flags AND FL_XDEV \<noteq> 0 \<and> st_dev (hd (stat_stack st1)) \<noteq> st_dev sb \<longrightarrow>
        readdir_loop_body recurse sys file_type_arr file_ext directory directory_depth flags dp st
          = Some (add_file_name sys file_type_arr file_ext directory flags dp 4 current_path
              (DEBUG_PRINTF sys st1))
      \<and> readdir_loop_body recurse sys file_type_arr file_ext directory 0 flags dp st
          = Some (add_file_name sys file_type_arr file_ext directory flags dp 4 current_path st1)
      \<and> (\<forall>path. current_path = Some path \<and> file_type_arr = create_file_type_arr 0
            \<and> file_ext = None \<and> flags AND FL_DIR_SEP = 0
            \<and> length (file_list st1) < file_list_size_max st1 \<longrightarrow>
            readdir_loop_body recurse sys file_type_arr file_ext directory directory_depth flags
              dp st =
            Some (Inr (Proceed ((DEBUG_PRINTF sys st1)\<lparr>file_list := file_list st1 @ [path]\<rparr>)))))"
proof -
  have l: "file_list st1 = file_list st \<and> stat_stack st1 = stat_stack st"
    using assms(2)
    by (auto simp: get_file_type_def CREATE_CURRENT_PATH_def create_path_def alloc_def Let_def
        split: if_splits sum.splits prod.splits option.splits)
  show ?thesis
    using assms l
    by (auto simp: readdir_loop_body_def traverse_next_directory_def add_file_name_def
        CREATE_CURRENT_PATH_def file_list_add_def create_file_type_arr_def Let_def)
qed


theorem loop_guard_and_other_device_witness:
  "\<not> is_current_or_parent ''self''
   \<and> get_file_type demo_os FL_FOLLOW_LINKS ''r'' \<lparr>d_name = ''self'', d_type = 10\<rparr>
        \<lparr>file_list = [], file_list_size_max = 512,
         stat_stack = [\<lparr>st_dev = 1, st_ino = 10, st_mode = 16877\<rparr>],
         stat_stack_size = 512, errno = Errno 0, n_alloc = 3, n_fprintf = 0\<rparr> =
       Inr (Typed 4 (Some \<lparr>st_dev = 1, st_ino = 10, st_mode = 16877\<rparr>) (Some ''r/self'')
        \<lparr>file_list = [], file_list_size_max = 512,
         stat_stack = [\<lparr>st_dev = 1, st_ino = 10, st_mode = 16877\<rparr>],
         stat_stack_size = 512, errno = Errno 0, n_alloc = 4, n_fprintf = 0\<rparr>)
   \<and> (- 1 :: int) \<noteq> 0
   \<and> is_directory_loop [\<lparr>st_dev = 1, st_ino = 10, st_mode = 16877\<rparr>]
        \<lparr>st_dev = 1, st_ino = 10, st_mode = 16877\<rparr> = Inr True
   \<and> readdir_loop_body (\<lambda>path depth s. None) demo_os (create_file_type_arr 0) None ''r'' (- 1)
        FL_FOLLOW_LINKS \<lparr>d_name = ''self'', d_type = 10\<rparr>
        \<lparr>file_list = [], file_list_size_max = 512,
         stat_stack = [\<lparr>st_dev = 1, st_ino = 10, st_mode = 16877\<rparr>],
         stat_stack_size = 512, errno = Errno 0, n_alloc = 3, n_fprintf = 0\<rparr> =
       Some (Inr (Continue
        \<lparr>file_list = [], file_list_size_max = 512,
         stat_stack = [\<lparr>st_dev = 1, st_ino = 10, st_mode = 16877\<rparr>],
         stat_stack_size = 512, errno = Errno 0, n_alloc = 4, n_fprintf = 1\<rparr>))
   \<and> \<not> is_current_or_parent ''mnt''
   \<and> get_file_type demo_os FL_XDEV ''r'' \<lparr>d_name = ''mnt'', d_type = 4\<rparr>
        \<lparr>file_list = [], file_list_size_max = 512,
         stat_stack = [\<lparr>st_dev = 1, st_ino = 10, st_mode = 16877\<rparr>],
         stat_stack_size = 512, errno = Errno 0, n_alloc = 3, n_fprintf = 0\<rparr> =
       Inr (Typed 4 (Some \<lparr>st_dev = 2, st_ino = 2, st_mode = 16877\<rparr>) (Some ''r/mnt'')
        \<lparr>file_list = [], file_list_size_max = 512,
         stat_stack = [\<lparr>st_dev = 1, st_ino = 10, st_mode = 16877\<rparr>],
         stat_stack_size = 512, errno = Errno 0, n_alloc = 4, n_fprintf = 0\<rparr>)
   \<and> is_directory_loop [\<lparr>st_dev = 1, st_ino = 10, st_mode = 16877\<rparr>]
        \<lparr>st_dev = 2, st_ino = 2, st_mode = 16877\<rparr> = Inr False
   \<and> FL_XDEV AND FL_XDEV \<noteq> 0 \<and> FL_XDEV AND FL_DIR_SEP = 0
   \<and> readdir_loop_body (\<lambda>path depth s. None) demo_os (create_file_type_arr 0) None ''r'' (- 1)
        FL_XDEV \<lparr>d_name = ''mnt'', d_type = 4\<rparr>
        \<lparr>file_list = [], file_list_size_max = 512,
         stat_stack = [\<lparr>st_dev = 1, st_ino = 10, st_mode = 16877\<rparr>],
         stat_stack_size = 512, errno = Errno 0, n_alloc = 3, n_fprintf = 0\<rparr> =
       Some (Inr (Proceed
        \<lparr>file_list = [''r/mnt''], file_list_size_max = 512,
         stat_stack = [\<lparr>st_dev = 1, st_ino = 10, st_mode = 16877\<rparr>],
         stat_stack_size = 512, errno = Errno 0, n_alloc = 4, n_fprintf = 1\<rparr>))"
proof -
  let ?root = "\<lparr>st_dev = 1, st_ino = 10, st_mode = 16877\<rparr>"
  let ?mnt = "\<lparr>st_dev = 2, st_ino = 2, st_mode = 16877\<rparr>"
  let ?st = "\<lparr>file_list = [], file_list_size_max = 512, stat_stack = [?root],
      stat_stack_size = 512, errno = Errno 0, n_alloc = 3, n_fprintf = 0\<rparr>"
  let ?st1 = "\<lparr>file_list = [], file_list_size_max = 512, stat_stack = [?root],
      stat_stack_size = 512, errno = Errno 0, n_alloc = 4, n_fprintf = 0\<rparr>"
  let ?self = "\<lparr>d_name = ''self'', d_type = 10\<rparr>"
  let ?dmnt = "\<lparr>d_name = ''mnt'', d_type = 4\<rparr>"
  have n1: "\<not> is_current_or_parent (d_name ?self)" and n2: "\<not> is_current_or_parent (d_name ?dmnt)"
    by (simp_all add: is_current_or_parent_def)
  have g1: "get_file_type demo_os FL_FOLLOW_LINKS ''r'' ?self ?st =
      Inr (Typed 4 (Some ?root) (Some ''r/self'') ?st1)"
    by (simp add: get_file_type_def CREATE_CURRENT_PATH_def create_path_def alloc_def demo_os_def
        DT_DIR_def DT_UNKNOWN_def DT_LNK_def FL_FOLLOW_LINKS_def DIR_SEPARATOR_def)
  have g2: "get_file_type demo_os FL_XDEV ''r'' ?dmnt ?st =
      Inr (Typed 4 (Some ?mnt) (Some ''r/mnt'') ?st1)"
    by (simp add: get_file_type_def CREATE_CURRENT_PATH_def create_path_def alloc_def demo_os_def
        DT_DIR_def DT_UNKNOWN_def DT_LNK_def FL_FOLLOW_LINKS_def FL_XDEV_def DIR_SEPARATOR_def)
  have d: "(- 1 :: int) \<noteq> 0" by simp
  have l1: "is_directory_loop [?root] ?root = Inr True"
    and l2: "is_directory_loop [?root] ?mnt = Inr False"
    by (simp_all add: is_directory_loop_def)
  have x: "FL_XDEV AND FL_XDEV \<noteq> 0" "FL_XDEV AND FL_DIR_SEP = 0"
    by (simp_all add: FL_XDEV_def FL_DIR_SEP_def)
  have p: "DEBUG_PRINTF demo_os ?st1 = ?st1\<lparr>n_fprintf := 1\<rparr>"
    by (simp add: DEBUG_PRINTF_def demo_os_def)
  from loop_guard_and_other_device [OF n1 g1 d, of "\<lambda>path depth s. None"
      "create_file_type_arr 0" None] l1
  have r1: "readdir_loop_body (\<lambda>path depth s. None) demo_os (create_file_type_arr 0) None ''r''
      (- 1) FL_FOLLOW_LINKS ?self ?st = Some (Inr (Continue (DEBUG_PRINTF demo_os ?st1)))"
    by simp
  have prem: "is_directory_loop (stat_stack ?st1) ?mnt = Inr False
      \<and> FL_XDEV AND FL_XDEV \<noteq> 0 \<and> st_dev (hd (stat_stack ?st1)) \<noteq> st_dev ?mnt"
    using l2 x by simp
  have prem2: "Some ''r/mnt'' = Some ''r/mnt'' \<and> create_file_type_arr 0 = create_file_type_arr 0
      \<and> (None :: (string \<Rightarrow> bool) option) = None \<and> FL_XDEV AND FL_DIR_SEP = 0
      \<and> length (file_list ?st1) < file_list_size_max ?st1"
    using x by simp
  note b = loop_guard_and_other_device [OF n2 g2 d, of "\<lambda>path depth s. None"
      "create_file_type_arr 0" None, THEN conjunct2, THEN mp, OF prem]
  note c = b [THEN conjunct2, THEN conjunct2, THEN spec, of "''r/mnt''", THEN mp, OF prem2]
  have r2: "readdir_loop_body (\<lambda>path depth s. None) demo_os (create_file_type_arr 0) None ''r''
      (- 1) FL_XDEV ?dmnt ?st =
    Some (Inr (Proceed ((DEBUG_PRINTF demo_os ?st1)\<lparr>file_list := file_list ?st1 @ [''r/mnt'']\<rparr>)))"
    by (rule c)
  from n1 n2 g1 g2 d l1 l2 x r1 [unfolded p] r2 [unfolded p] show ?thesis by simp
qed

subsection \<open>The depth of the recursion\<close>

lemma traverse_next_directory_cong:
  assumes "\<And>path s. recurse path (if directory_depth > 0 then directory_depth - 1
      else directory_depth) s = recurse' path (if directory_depth > 0 then directory_depth - 1
      else directory_depth) s"
  shows "traverse_next_directory recurse sys directory_depth flags sb_opt current_path st =
    traverse_next_directory recurse' sys directory_depth flags sb_opt current_path st"
proof -
  define nd where "nd = (if directory_depth > 0 then directory_depth - 1 else directory_depth)"
  have eq: "recurse path nd s = recurse' path nd s" for path s
    unfolding nd_def by (rule assms)
  show ?thesis
    unfolding traverse_next_directory_def nd_def [symmetric]
    by (simp add: eq split: option.split sum.split bool.split prod.split)
qed

lemma readdir_loop_body_cong:
  assumes "\<And>path s. directory_depth \<noteq> 0 \<Longrightarrow>
      recurse path (if directory_depth > 0 then directory_depth - 1 else directory_depth) s =
      recurse' path (if directory_depth > 0 then directory_depth - 1 else directory_depth) s"
  shows "readdir_loop_body recurse sys file_type_arr file_ext directory directory_depth flags
      dp st =
    readdir_loop_body recurse' sys file_type_arr file_ext directory directory_depth flags dp st"
proof (cases "directory_depth = 0")
  case True
  then show ?thesis
    by (simp add: readdir_loop_body_def split: sum.split classified.split)
next
  case False
  have "traverse_next_directory recurse sys directory_depth flags sb cp s =
      traverse_next_directory recurse' sys directory_depth flags sb cp s" for sb cp s
    by (rule traverse_next_directory_cong) (rule assms [OF False])
  then show ?thesis
    by (simp add: readdir_loop_body_def split: sum.split classified.split)
qed

lemma readdir_loop_cong:
  assumes "\<And>path s. directory_depth \<noteq> 0 \<Longrightarrow>
      recurse path (if directory_depth > 0 then directory_depth - 1 else directory_depth) s =
      recurse' path (if directory_depth > 0 then directory_depth - 1 else directory_depth) s"
  shows "readdir_loop recurse sys file_type_arr file_ext directory directory_depth flags
      entries st =
    readdir_loop recurse' sys file_type_arr file_ext directory directory_depth flags entries st"
proof (induction entries arbitrary: st)
  case Nil
  then show ?case by simp
next
  case (Cons dp entries)
  have "readdir_loop_body recurse sys file_type_arr file_ext directory directory_depth flags
      dp st =
    readdir_loop_body recurse' sys file_type_arr file_ext directory directory_depth flags dp st"
    by (rule readdir_loop_body_cong) (rule assms)
  with Cons.IH show ?case by (simp split: option.split sum.split control.split)
qed

lemma traverse_next_directory_returns:
  assumes "\<And>path s. recurse path (if directory_depth > 0 then directory_depth - 1
      else directory_depth) s \<noteq> None"
  shows "traverse_next_directory recurse sys directory_depth flags sb_opt current_path st \<noteq> None"
proof -
  define nd where "nd = (if directory_depth > 0 then directory_depth - 1 else directory_depth)"
  have r: "recurse path nd s \<noteq> None" for path s
    unfolding nd_def by (rule assms)
  show ?thesis
    unfolding traverse_next_directory_def nd_def [symmetric]
    by (simp add: r del: not_None_eq split: option.split sum.split bool.split prod.split)
qed

lemma readdir_loop_body_returns:
  assumes "\<And>path s. directory_depth \<noteq> 0 \<Longrightarrow>
      recurse path (if directory_depth > 0 then directory_depth - 1 else directory_depth) s
        \<noteq> None"
  shows "readdir_loop_body recurse sys file_type_arr file_ext directory directory_depth flags
      dp st \<noteq> None"
proof (cases "directory_depth = 0")
  case True
  then show ?thesis
    by (simp add: readdir_loop_body_def split: sum.split classified.split)
next
  case False
  have t: "traverse_next_directory recurse sys directory_depth flags sb cp s \<noteq> None"
    for sb cp s
    by (rule traverse_next_directory_returns) (rule assms [OF False])
  show ?thesis
    by (simp add: readdir_loop_body_def t del: not_None_eq
        split: sum.split classified.split control.split option.split)
qed

lemma readdir_loop_returns:
  assumes "\<And>path s. directory_depth \<noteq> 0 \<Longrightarrow>
      recurse path (if directory_depth > 0 then directory_depth - 1 else directory_depth) s
        \<noteq> None"
  shows "readdir_loop recurse sys file_type_arr file_ext directory directory_depth flags
      entries st \<noteq> None"
proof (induction entries arbitrary: st)
  case Nil
  then show ?case by simp
next
  case (Cons dp entries)
  have b: "readdir_loop_body recurse sys file_type_arr file_ext directory directory_depth flags
      dp st \<noteq> None"
    by (rule readdir_loop_body_returns) (rule assms)
  show ?case
    by (simp add: b Cons.IH del: not_None_eq split: option.split sum.split control.split)
qed

lemma parse_file_tree_returns:
  "0 \<le> directory_depth \<Longrightarrow> nat directory_depth < fuel \<Longrightarrow>
   parse_file_tree fuel sys file_type_arr file_ext directory directory_depth flags st \<noteq> None"
proof (induction fuel arbitrary: directory directory_depth st)
  case 0
  then show ?case by simp
next
  case (Suc fuel)
  have l: "readdir_loop
      (\<lambda>path depth s. parse_file_tree fuel sys file_type_arr file_ext path depth flags s)
      sys file_type_arr file_ext directory directory_depth flags entries st \<noteq> None" for entries
  proof (rule readdir_loop_returns)
    fix path s
    assume "directory_depth \<noteq> 0"
    with Suc.prems have "0 \<le> directory_depth - 1" "nat (directory_depth - 1) < fuel" by auto
    from Suc.IH [OF this] Suc.prems \<open>directory_depth \<noteq> 0\<close>
    show "parse_file_tree fuel sys file_type_arr file_ext path
        (if directory_depth > 0 then directory_depth - 1 else directory_depth) flags s \<noteq> None"
      by simp
  qed
  show ?case by (simp add: l Let_def del: not_None_eq split: sum.split)
qed


lemma parse_file_tree_fuel:
  "0 \<le> directory_depth \<Longrightarrow> nat directory_depth < fuel \<Longrightarrow> nat directory_depth < fuel' \<Longrightarrow>
   parse_file_tree fuel sys file_type_arr file_ext directory directory_depth flags st =
   parse_file_tree fuel' sys file_type_arr file_ext directory directory_depth flags st"
proof (induction fuel arbitrary: fuel' directory directory_depth st)
  case 0
  then show ?case by simp
next
  case (Suc fuel)
  from Suc.prems(3) obtain g where g: "fuel' = Suc g" by (cases fuel') auto
  have "readdir_loop
      (\<lambda>path depth s. parse_file_tree fuel sys file_type_arr file_ext path depth flags s)
      sys file_type_arr file_ext directory directory_depth flags entries st =
    readdir_loop
      (\<lambda>path depth s. parse_file_tree g sys file_type_arr file_ext path depth flags s)
      sys file_type_arr file_ext directory directory_depth flags entries st" for entries
  proof (rule readdir_loop_cong)
    fix path s
    assume n: "directory_depth \<noteq> 0"
    with Suc.prems g have "0 \<le> directory_depth - 1" "nat (directory_depth - 1) < fuel"
      "nat (directory_depth - 1) < g" by auto
    from Suc.IH [OF this] Suc.prems(1) n
    show "parse_file_tree fuel sys file_type_arr file_ext path
        (if directory_depth > 0 then directory_depth - 1 else directory_depth) flags s =
      parse_file_tree g sys file_type_arr file_ext path
        (if directory_depth > 0 then directory_depth - 1 else directory_depth) flags s"
      by simp
  qed
  with g show ?case by (simp split: sum.split)
qed

lemma file_list_create_returns:
  assumes "0 \<le> depth"
  shows "file_list_create (nat depth + 1) sys file_type regex_pattern dir depth flags
    sort_method errno0 \<noteq> None"
proof -
  have p: "parse_file_tree (Suc (nat depth)) sys fta fe d depth flags s \<noteq> None" for fta fe d s
    by (rule parse_file_tree_returns [OF assms]) simp
  show ?thesis
    unfolding file_list_create_def Let_def Suc_eq_plus1 [symmetric]
    by (simp add: p del: not_None_eq parse_file_tree.simps
        split: prod.split option.split sum.split)
qed

subsection \<open>A listing of depth 0\<close>

lemma get_file_type_child:
  assumes "get_file_type sys flags directory dp st = Inr (Typed current_type sb current_path st1)"
  shows "file_list st1 = file_list st
    \<and> (\<forall>p. current_path = Some p \<longrightarrow>
         p = (if last directory = DIR_SEPARATOR then directory @ d_name dp
              else directory @ DIR_SEPARATOR # d_name dp))"
proof (cases "d_type dp = DT_DIR \<or> d_type dp = DT_UNKNOWN
    \<or> (d_type dp = DT_LNK \<and> flags AND FL_FOLLOW_LINKS \<noteq> 0)")
  case False
  with assms show ?thesis by (auto simp: get_file_type_def)
next
  case True
  show ?thesis
  proof (cases "create_path sys directory (d_name dp) st")
    case (Inl e)
    with True assms show ?thesis
      by (simp add: get_file_type_def CREATE_CURRENT_PATH_def)
  next
    case (Inr x)
    obtain cp s1 where x: "x = (cp, s1)" by (cases x)
    with Inr create_path_list have l: "file_list s1 = file_list st" by blast
    show ?thesis
    proof (cases cp)
      case None
      with True assms Inr x show ?thesis
        by (simp add: get_file_type_def CREATE_CURRENT_PATH_def)
    next
      case (Some path)
      with Inr x have "create_path sys directory (d_name dp) st = Inr (Some path, s1)" by simp
      from create_path_Some [OF this]
      have pe: "path = (if last directory = DIR_SEPARATOR then directory @ d_name dp
              else directory @ DIR_SEPARATOR # d_name dp)" by simp
      from True assms Inr x Some l have "st1 = s1 \<and> current_path = Some path"
        by (auto simp: get_file_type_def CREATE_CURRENT_PATH_def split: sum.splits if_splits)
      with l pe show ?thesis by simp
    qed
  qed
qed

lemma add_file_name_child:
  assumes "add_file_name sys file_type_arr file_ext directory flags dp current_type
      current_path st = Inr c"
    and "\<forall>p. current_path = Some p \<longrightarrow> p = child"
    and "child = (if last directory = DIR_SEPARATOR then directory @ d_name dp
              else directory @ DIR_SEPARATOR # d_name dp)"
  shows "file_list (control_state c) = file_list st
    \<or> file_list (control_state c) = file_list st @ [child]
    \<or> file_list (control_state c) = file_list st @ [child @ [DIR_SEPARATOR]]"
proof (cases "current_type < length file_type_arr \<and> file_type_arr ! current_type = 1
    \<and> \<not> (case file_ext of None \<Rightarrow> False | Some regex \<Rightarrow> \<not> matches_regex (d_name dp) regex)")
  case False
  with assms(1) show ?thesis by (auto simp: add_file_name_def split: if_splits)
next
  case True
  from True assms(1) obtain x where
    cc: "CREATE_CURRENT_PATH sys directory dp current_path st = Inr x"
    by (cases "CREATE_CURRENT_PATH sys directory dp current_path st")
      (auto simp: add_file_name_def)
  obtain cp st1 where x: "x = (cp, st1)" by (cases x)
  from cc x have l1: "file_list st1 = file_list st"
    by (auto simp: CREATE_CURRENT_PATH_def dest: create_path_list split: if_splits)
  show ?thesis
  proof (cases cp)
    case None
    with True assms(1) cc x l1 show ?thesis by (auto simp: add_file_name_def)
  next
    case (Some path)
    with cc x assms(2,3) have pe: "path = child"
      by (auto simp: CREATE_CURRENT_PATH_def dest: create_path_Some split: if_splits)
    define y where "y = (if current_type = 4 \<and> flags AND FL_DIR_SEP \<noteq> 0
        then (case alloc sys st1 of (ok, st2) \<Rightarrow>
               (if ok then Some (path @ [DIR_SEPARATOR]) else None, st2))
        else (Some path, st1))"
    obtain np st2 where y: "y = (np, st2)" by (cases y)
    have l2: "file_list st2 = file_list st1
      \<and> (\<forall>q. np = Some q \<longrightarrow> q = path \<or> q = path @ [DIR_SEPARATOR])"
    proof (cases "current_type = 4 \<and> flags AND FL_DIR_SEP \<noteq> 0")
      case False
      with y show ?thesis by (auto simp: y_def)
    next
      case True
      obtain ok s2 where a: "alloc sys st1 = (ok, s2)" by (cases "alloc sys st1")
      from alloc_fields [OF a] True y a show ?thesis by (auto simp: y_def split: if_splits)
    qed
    from True assms(1) cc x Some have r: "(case y of
        (None, st2) \<Rightarrow> Inr (Return st2)
      | (Some new_path, st2) \<Rightarrow>
          (case file_list_add sys new_path st2 of
             Inl e \<Rightarrow> Inl e
           | Inr (r, st3) \<Rightarrow> if r = - 1 then Inr (Return st3) else Inr (Proceed st3))) = Inr c"
      by (simp add: add_file_name_def y_def)
    show ?thesis
    proof (cases np)
      case None
      with r y l1 l2 show ?thesis by auto
    next
      case (Some q)
      with r y obtain r3 st3 where fa: "file_list_add sys q st2 = Inr (r3, st3)"
        by (cases "file_list_add sys q st2") auto
      from file_list_add_list [OF fa] l1 l2
      have l3: "file_list st3 = file_list st \<or> file_list st3 = file_list st @ [q]"
        by (simp split: if_splits)
      from r y Some fa have "control_state c = st3" by (auto split: if_splits)
      with l3 l2 Some pe show ?thesis by auto
    qed
  qed
qed

lemma readdir_loop_body_depth_0:
  assumes "readdir_loop_body recurse sys file_type_arr file_ext directory 0 flags dp st =
      Some (Inr c)"
    and "child = (if last directory = DIR_SEPARATOR then directory @ d_name dp
              else directory @ DIR_SEPARATOR # d_name dp)"
  shows "file_list (control_state c) = file_list st
    \<or> file_list (control_state c) = file_list st @ [child]
    \<or> file_list (control_state c) = file_list st @ [child @ [DIR_SEPARATOR]]"
proof (cases "is_current_or_parent (d_name dp)")
  case True
  with assms(1) show ?thesis by (auto simp: readdir_loop_body_def)
next
  case False
  with assms(1) obtain g where g: "get_file_type sys flags directory dp st = Inr g"
    by (cases "get_file_type sys flags directory dp st") (auto simp: readdir_loop_body_def)
  note gp = get_file_type_paths [OF g]
  show ?thesis
  proof (cases g)
    case (Failed st1)
    with False assms(1) g gp show ?thesis by (auto simp: readdir_loop_body_def)
  next
    case (Skipped st1)
    with False assms(1) g gp show ?thesis by (auto simp: readdir_loop_body_def)
  next
    case (Typed current_type sb current_path st1)
    with g have "get_file_type sys flags directory dp st =
        Inr (Typed current_type sb current_path st1)" by simp
    from get_file_type_child [OF this] assms(2)
    have l: "file_list st1 = file_list st" and cp: "\<forall>p. current_path = Some p \<longrightarrow> p = child"
      by auto
    from False assms(1) g Typed
    have "add_file_name sys file_type_arr file_ext directory flags dp current_type
        current_path st1 = Inr c"
      by (simp add: readdir_loop_body_def)
    from add_file_name_child [OF this cp assms(2)] l show ?thesis by simp
  qed
qed

lemma readdir_loop_depth_0:
  assumes "readdir_loop recurse sys file_type_arr file_ext directory 0 flags entries st =
      Some (Inr (r, st1))"
  shows "\<exists>new. file_list st1 = file_list st @ new
    \<and> (\<forall>p \<in> set new. \<exists>dp \<in> set entries.
          p = (if last directory = DIR_SEPARATOR then directory @ d_name dp
               else directory @ DIR_SEPARATOR # d_name dp)
        \<or> p = (if last directory = DIR_SEPARATOR then directory @ d_name dp
               else directory @ DIR_SEPARATOR # d_name dp) @ [DIR_SEPARATOR])"
  using assms
proof (induction entries arbitrary: st)
  case Nil
  then show ?case by simp
next
  case (Cons dp entries)
  define child where "child = (if last directory = DIR_SEPARATOR then directory @ d_name dp
               else directory @ DIR_SEPARATOR # d_name dp)"
  from Cons.prems obtain c where
    body: "readdir_loop_body recurse sys file_type_arr file_ext directory 0 flags dp st =
      Some (Inr c)"
    by (auto split: option.splits sum.splits)
  from readdir_loop_body_depth_0 [OF body child_def]
  obtain new1 where n1: "file_list (control_state c) = file_list st @ new1"
    and s1: "set new1 \<subseteq> {child, child @ [DIR_SEPARATOR]}"
    by (elim disjE) (auto intro: that [of "[]"] that [of "[child]"]
        that [of "[child @ [DIR_SEPARATOR]]"])
  have here: ?case if "file_list st1 = file_list (control_state c)"
  proof -
    from that n1 have "file_list st1 = file_list st @ new1" by simp
    moreover from s1 have "\<forall>p \<in> set new1. \<exists>e \<in> set (dp # entries).
          p = (if last directory = DIR_SEPARATOR then directory @ d_name e
               else directory @ DIR_SEPARATOR # d_name e)
        \<or> p = (if last directory = DIR_SEPARATOR then directory @ d_name e
               else directory @ DIR_SEPARATOR # d_name e) @ [DIR_SEPARATOR]"
      unfolding child_def by auto
    ultimately show ?thesis by blast
  qed
  have rest: ?case if "readdir_loop recurse sys file_type_arr file_ext directory 0 flags
      entries (control_state c) = Some (Inr (r, st1))"
  proof -
    from Cons.IH [OF that] obtain new2 where
      n2: "file_list st1 = file_list (control_state c) @ new2"
      and s2: "\<forall>p \<in> set new2. \<exists>e \<in> set entries.
          p = (if last directory = DIR_SEPARATOR then directory @ d_name e
               else directory @ DIR_SEPARATOR # d_name e)
        \<or> p = (if last directory = DIR_SEPARATOR then directory @ d_name e
               else directory @ DIR_SEPARATOR # d_name e) @ [DIR_SEPARATOR]"
      by blast
    from n1 n2 have "file_list st1 = file_list st @ (new1 @ new2)" by simp
    moreover have "\<forall>p \<in> set (new1 @ new2). \<exists>e \<in> set (dp # entries).
          p = (if last directory = DIR_SEPARATOR then directory @ d_name e
               else directory @ DIR_SEPARATOR # d_name e)
        \<or> p = (if last directory = DIR_SEPARATOR then directory @ d_name e
               else directory @ DIR_SEPARATOR # d_name e) @ [DIR_SEPARATOR]"
    proof
      fix p
      assume "p \<in> set (new1 @ new2)"
      then consider "p \<in> set new1" | "p \<in> set new2" by auto
      then show "\<exists>e \<in> set (dp # entries).
          p = (if last directory = DIR_SEPARATOR then directory @ d_name e
               else directory @ DIR_SEPARATOR # d_name e)
        \<or> p = (if last directory = DIR_SEPARATOR then directory @ d_name e
               else directory @ DIR_SEPARATOR # d_name e) @ [DIR_SEPARATOR]"
      proof cases
        case 1
        with s1 have "p = child \<or> p = child @ [DIR_SEPARATOR]" by auto
        then show ?thesis unfolding child_def by auto
      next
        case 2
        with s2 obtain e where "e \<in> set entries" "p = (if last directory = DIR_SEPARATOR then directory @ d_name e
               else directory @ DIR_SEPARATOR # d_name e)
        \<or> p = (if last directory = DIR_SEPARATOR then directory @ d_name e
               else directory @ DIR_SEPARATOR # d_name e) @ [DIR_SEPARATOR]" by blast
        then show ?thesis by (intro bexI [of _ e]) simp_all
      qed
    qed
    ultimately show ?thesis by blast
  qed
  show ?case
  proof (cases c)
    case (Return st2)
    with Cons.prems body have "st1 = st2" by simp
    with Return here show ?thesis by simp
  next
    case (Continue st2)
    with Cons.prems body rest show ?thesis by simp
  next
    case (Proceed st2)
    with Cons.prems body rest show ?thesis by simp
  qed
qed


subsection \<open>The endless chain of directories\<close>

lemma parse_file_tree_chain:
  "directory \<noteq> [] \<Longrightarrow> stat_stack st \<noteq> [] \<Longrightarrow> length (stat_stack st) \<le> stat_stack_size st \<Longrightarrow>
   \<forall>e \<in> set (stat_stack st). st_ino e \<le> length directory \<and> st_dev e = 1 \<Longrightarrow>
   directory_depth < 0 \<or> int fuel \<le> directory_depth \<Longrightarrow>
   parse_file_tree fuel chain_os file_type_arr file_ext directory directory_depth flags st = None"
proof (induction fuel arbitrary: directory directory_depth st)
  case 0
  then show ?case by simp
next
  case (Suc fuel)
  define dp where "dp = \<lparr>d_name = ''d'', d_type = 4\<rparr>"
  define path where "path = (if last directory = DIR_SEPARATOR then directory @ ''d''
    else directory @ DIR_SEPARATOR # ''d'')"
  define sb where "sb = \<lparr>st_dev = 1, st_ino = length path, st_mode = 16877\<rparr>"
  define st1 where "st1 = snd (alloc chain_os st)"
  define nd where "nd = (if directory_depth > 0 then directory_depth - 1 else directory_depth)"
  have len: "length directory < length path" by (simp add: path_def)
  have s1: "stat_stack st1 = stat_stack st" "stat_stack_size st1 = stat_stack_size st"
    by (simp_all add: st1_def alloc_def Let_def)
  from Suc.prems(1)
  have g: "get_file_type chain_os flags directory dp st =
      Inr (Typed 4 (Some sb) (Some path) st1)"
    by (simp add: get_file_type_def CREATE_CURRENT_PATH_def create_path_def DT_DIR_def
        alloc_def chain_os_def dp_def sb_def path_def st1_def Let_def)
  from Suc.prems(4) len have "\<forall>e \<in> set (stat_stack st). st_ino e \<noteq> st_ino sb"
    by (auto simp: sb_def)
  with Suc.prems(2) have loop: "is_directory_loop (stat_stack st1) sb = Inr False"
    by (simp add: is_directory_loop_def s1 list_ex_iff)
  from Suc.prems(2,4) have dev: "st_dev (hd (stat_stack st1)) = st_dev sb"
    by (simp add: s1 sb_def)
  obtain st2 where push: "stat_stack_push chain_os sb st1 = Inr (0, st2)"
    and k2: "stat_stack st2 = stat_stack st @ [sb]"
    and b2: "length (stat_stack st2) \<le> stat_stack_size st2"
  proof (cases "length (stat_stack st1) = stat_stack_size st1")
    case True
    with Suc.prems(2) s1 have "0 < stat_stack_size st"
      by (cases "stat_stack st") auto
    with True s1 show ?thesis
      by (intro that [of "snd (alloc chain_os st1)\<lparr>stat_stack := stat_stack st1 @ [sb],
            stat_stack_size := stat_stack_size st1 * 2\<rparr>"])
        (simp_all add: stat_stack_push_def alloc_def chain_os_def Let_def)
  next
    case False
    with Suc.prems(3) s1 show ?thesis
      by (intro that [of "st1\<lparr>stat_stack := stat_stack st1 @ [sb]\<rparr>"])
        (simp_all add: stat_stack_push_def)
  qed
  have rec: "parse_file_tree fuel chain_os file_type_arr file_ext path nd flags st2 = None"
  proof (rule Suc.IH)
    show "path \<noteq> []" using len by auto
    show "stat_stack st2 \<noteq> []" by (simp add: k2)
    show "length (stat_stack st2) \<le> stat_stack_size st2" by (rule b2)
    show "\<forall>e \<in> set (stat_stack st2). st_ino e \<le> length path \<and> st_dev e = 1"
      using Suc.prems(4) len by (auto simp: k2 sb_def)
    show "nd < 0 \<or> int fuel \<le> nd" using Suc.prems(5) by (auto simp: nd_def)
  qed
  have nz: "directory_depth \<noteq> 0" using Suc.prems(5) by auto
  have t: "traverse_next_directory
      (\<lambda>path depth s. parse_file_tree fuel chain_os file_type_arr file_ext path depth flags s)
      chain_os directory_depth flags (Some sb) (Some path) st1 = None"
    unfolding traverse_next_directory_def nd_def [symmetric]
    by (simp add: loop dev push rec)
  have "readdir_loop_body
      (\<lambda>path depth s. parse_file_tree fuel chain_os file_type_arr file_ext path depth flags s)
      chain_os file_type_arr file_ext directory directory_depth flags dp st = None"
    by (simp add: readdir_loop_body_def is_current_or_parent_def dp_def [symmetric] g nz t)
      (simp add: dp_def)
  then have "readdir_loop
      (\<lambda>path depth s. parse_file_tree fuel chain_os file_type_arr file_ext path depth flags s)
      chain_os file_type_arr file_ext directory directory_depth flags [dp] st = None"
    by simp
  moreover have "opendir chain_os directory = Inr [dp]" by (simp add: chain_os_def dp_def)
  ultimately show ?case by simp
qed

lemma file_list_create_chain:
  assumes "depth < 0 \<or> int fuel \<le> depth"
  shows "file_list_create fuel chain_os file_type None (Some ''r'') depth flags sort_method
    errno0 = None"
proof -
  have m: "malloc_ok chain_os n" for n by (simp add: chain_os_def)
  have s: "stat chain_os ''r'' = Inr \<lparr>st_dev = 1, st_ino = 1, st_mode = 16877\<rparr>"
    by (simp add: chain_os_def)
  show ?thesis
    by (simp add: file_list_create_def alloc_def m s create_clean_dir_def
        remove_trailing.simps DIR_SEPARATOR_def
        stat_stack_create_def stat_stack_push_def STAT_STACK_INITIAL_SIZE_def Let_def
        parse_file_tree_chain assms)
qed


lemma parse_file_tree_depth_0:
  assumes "parse_file_tree fuel sys file_type_arr file_ext directory 0 flags st =
      Some (Inr (r, st1))"
  shows "\<exists>new. file_list st1 = file_list st @ new
    \<and> (\<forall>p \<in> set new. \<exists>entries. opendir sys directory = Inr entries
        \<and> (\<exists>dp \<in> set entries.
          p = (if last directory = DIR_SEPARATOR then directory @ d_name dp
               else directory @ DIR_SEPARATOR # d_name dp)
        \<or> p = (if last directory = DIR_SEPARATOR then directory @ d_name dp
               else directory @ DIR_SEPARATOR # d_name dp) @ [DIR_SEPARATOR]))"
proof (cases fuel)
  case 0
  with assms show ?thesis by simp
next
  case (Suc g)
  show ?thesis
  proof (cases "opendir sys directory")
    case (Inl e)
    with assms Suc have "file_list st1 = file_list st @ []" by (auto simp: Let_def)
    then show ?thesis by (intro exI [of _ "[]"]) simp
  next
    case (Inr entries)
    with assms Suc have "readdir_loop
        (\<lambda>path depth s. parse_file_tree g sys file_type_arr file_ext path depth flags s)
        sys file_type_arr file_ext directory 0 flags entries st = Some (Inr (r, st1))"
      by simp
    from readdir_loop_depth_0 [OF this] Inr show ?thesis by simp
  qed
qed

lemma file_list_create_depth_0:
  assumes "file_list_create fuel sys file_type regex_pattern (Some d) 0 flags sort_method
      errno0 = Some (Inr res)"
    and "out_list res = Terminated xs \<or> out_list res = Unterminated xs"
    and "start_dir = remove_trailing (omit_separators False d)"
  shows "\<forall>p \<in> set xs. \<exists>entries. opendir sys start_dir = Inr entries
        \<and> (\<exists>dp \<in> set entries.
          p = (if last start_dir = DIR_SEPARATOR then start_dir @ d_name dp
               else start_dir @ DIR_SEPARATOR # d_name dp)
        \<or> p = (if last start_dir = DIR_SEPARATOR then start_dir @ d_name dp
               else start_dir @ DIR_SEPARATOR # d_name dp) @ [DIR_SEPARATOR])"
  using assms(1)
proof (cases rule: file_list_create_cases)
  case (early res')
  with assms(2) show ?thesis by auto
next
  case (traversal file_ext d' start sb st4 y)
  from traversal(1,3) assms(3) have st: "start = start_dir" by simp
  from traversal(15) obtain r st5 where y: "y = Inr (r, st5)"
    and fin: "file_list_create_finish sys sort_method r st5 = Inr res"
    by (cases y) auto
  from file_list_create_finish_list [OF fin assms(2)]
  have xs: "set xs = set (file_list st5)" by simp
  from traversal(14) y st
  have "parse_file_tree fuel sys (create_file_type_arr file_type) file_ext start_dir 0 flags st4
      = Some (Inr (r, st5))" by simp
  from parse_file_tree_depth_0 [OF this] traversal(5) xs show ?thesis by auto
qed

lemma parse_file_tree_next_depth:
  "parse_file_tree (Suc fuel) sys file_type_arr file_ext directory directory_depth flags st =
     (case opendir sys directory of
        Inl e \<Rightarrow>
          (let st1 = DEBUG_PRINTF sys (st\<lparr>errno := e\<rparr>)
           in Some (Inr (if errno st1 \<noteq> EACCES then - 1 else 0, st1)))
      | Inr entries \<Rightarrow>
          readdir_loop
            (\<lambda>path depth s. if directory_depth = 0 then None
               else parse_file_tree fuel sys file_type_arr file_ext path
                      (if directory_depth > 0 then directory_depth - 1 else directory_depth)
                      flags s)
            sys file_type_arr file_ext directory directory_depth flags entries st)"
proof -
  have "readdir_loop
      (\<lambda>path depth s. parse_file_tree fuel sys file_type_arr file_ext path depth flags s)
      sys file_type_arr file_ext directory directory_depth flags entries st =
    readdir_loop
      (\<lambda>path depth s. if directory_depth = 0 then None
         else parse_file_tree fuel sys file_type_arr file_ext path
                (if directory_depth > 0 then directory_depth - 1 else directory_depth) flags s)
      sys file_type_arr file_ext directory directory_depth flags entries st" for entries
    by (rule readdir_loop_cong) simp
  then show ?thesis by (simp add: Let_def split: sum.split)
qed

lemma file_list_create_fuel:
  assumes "0 \<le> depth" "nat depth < fuel"
  shows "file_list_create fuel sys file_type regex_pattern dir depth flags sort_method errno0 =
    file_list_create (nat depth + 1) sys file_type regex_pattern dir depth flags sort_method
      errno0"
proof -
  have eq: "parse_file_tree fuel sys fta fe d depth flags s =
      parse_file_tree (nat depth + 1) sys fta fe d depth flags s" for fta fe d s
    by (rule parse_file_tree_fuel [OF assms]) simp
  show ?thesis
    unfolding file_list_create_def Let_def
    by (simp add: eq del: parse_file_tree.simps split: prod.split option.split sum.split)
qed

text \<open>
  C8. The depth of a listing. The call of \<open>parse_file_tree\<close> for a directory hands a
  positive depth less one, and a negative depth as it is, to the calls for the
  directories in it, and makes no such call at depth 0. A listing of depth 0 holds
  only entries of the start directory itself (directories among them with a trailing
  separator when that is asked for). With a depth \<open>d \<ge> 0\<close> the calls are nested at most
  \<open>d + 1\<close> deep, whatever the file system, and in the endless chain of directories they
  are nested that deep; with a negative depth no nesting suffices there: the recursion
  is never stopped.
\<close>

theorem depth_limits_recursion:
  "parse_file_tree (Suc fuel) sys file_type_arr file_ext directory depth flags st =
     (case opendir sys directory of
        Inl e \<Rightarrow>
          (let st1 = DEBUG_PRINTF sys (st\<lparr>errno := e\<rparr>)
           in Some (Inr (if errno st1 \<noteq> EACCES then - 1 else 0, st1)))
      | Inr entries \<Rightarrow>
          readdir_loop
            (\<lambda>path next_depth s. if depth = 0 then None
               else parse_file_tree fuel sys file_type_arr file_ext path
                      (if depth > 0 then depth - 1 else depth) flags s)
            sys file_type_arr file_ext directory depth flags entries st)
   \<and> (file_list_create fuel sys file_type regex_pattern (Some d) 0 flags sort_method err
         = Some (Inr res)
        \<and> (out_list res = Terminated xs \<or> out_list res = Unterminated xs)
        \<and> start_dir = remove_trailing (omit_separators False d) \<and> p \<in> set xs \<longrightarrow>
      (\<exists>entries. opendir sys start_dir = Inr entries
         \<and> (\<exists>dp \<in> set entries.
              p = (if last start_dir = DIR_SEPARATOR then start_dir @ d_name dp
                   else start_dir @ DIR_SEPARATOR # d_name dp)
            \<or> p = (if last start_dir = DIR_SEPARATOR then start_dir @ d_name dp
                   else start_dir @ DIR_SEPARATOR # d_name dp) @ [DIR_SEPARATOR])))
   \<and> (0 \<le> depth \<longrightarrow>
        file_list_create (nat depth + 1) sys file_type regex_pattern dir depth flags sort_method
          err \<noteq> None
        \<and> (\<forall>more. file_list_create (nat depth + 1 + more) sys file_type regex_pattern dir depth
              flags sort_method err =
            file_list_create (nat depth + 1) sys file_type regex_pattern dir depth flags
              sort_method err)
        \<and> file_list_create (nat depth) chain_os file_type None (Some ''r'') depth flags
            sort_method err = None)
   \<and> (depth < 0 \<longrightarrow>
        file_list_create fuel chain_os file_type None (Some ''r'') depth flags sort_method
          err = None)"
proof (intro conjI impI allI)
  show "parse_file_tree (Suc fuel) sys file_type_arr file_ext directory depth flags st =
     (case opendir sys directory of
        Inl e \<Rightarrow>
          (let st1 = DEBUG_PRINTF sys (st\<lparr>errno := e\<rparr>)
           in Some (Inr (if errno st1 \<noteq> EACCES then - 1 else 0, st1)))
      | Inr entries \<Rightarrow>
          readdir_loop
            (\<lambda>path next_depth s. if depth = 0 then None
               else parse_file_tree fuel sys file_type_arr file_ext path
                      (if depth > 0 then depth - 1 else depth) flags s)
            sys file_type_arr file_ext directory depth flags entries st)"
    by (rule parse_file_tree_next_depth)
next
  assume a: "file_list_create fuel sys file_type regex_pattern (Some d) 0 flags sort_method
        err = Some (Inr res)
      \<and> (out_list res = Terminated xs \<or> out_list res = Unterminated xs)
      \<and> start_dir = remove_trailing (omit_separators False d) \<and> p \<in> set xs"
  then have "file_list_create fuel sys file_type regex_pattern (Some d) 0 flags sort_method
        err = Some (Inr res)"
    and "out_list res = Terminated xs \<or> out_list res = Unterminated xs"
    and "start_dir = remove_trailing (omit_separators False d)" by simp_all
  from file_list_create_depth_0 [OF this] a
  show "\<exists>entries. opendir sys start_dir = Inr entries
         \<and> (\<exists>dp \<in> set entries.
              p = (if last start_dir = DIR_SEPARATOR then start_dir @ d_name dp
                   else start_dir @ DIR_SEPARATOR # d_name dp)
            \<or> p = (if last start_dir = DIR_SEPARATOR then start_dir @ d_name dp
                   else start_dir @ DIR_SEPARATOR # d_name dp) @ [DIR_SEPARATOR])"
    by blast
next
  assume "0 \<le> depth"
  then show "file_list_create (nat depth + 1) sys file_type regex_pattern dir depth flags
      sort_method err \<noteq> None"
    by (rule file_list_create_returns)
next
  fix more
  assume "0 \<le> depth"
  then show "file_list_create (nat depth + 1 + more) sys file_type regex_pattern dir depth
              flags sort_method err =
            file_list_create (nat depth + 1) sys file_type regex_pattern dir depth flags
              sort_method err"
    by (rule file_list_create_fuel) simp
next
  assume "0 \<le> depth"
  then show "file_list_create (nat depth) chain_os file_type None (Some ''r'') depth flags
            sort_method err = None"
    by (intro file_list_create_chain) simp
next
  assume "depth < 0"
  then show "file_list_create fuel chain_os file_type None (Some ''r'') depth flags sort_method
          err = None"
    by (intro file_list_create_chain) simp
qed

theorem depth_limits_recursion_witness:
  "file_list_create 1 demo_os 0 None (Some ''r'') 0 0 FL_SORT_DEFAULT (Errno 0) =
     Some (Inr \<lparr>ret = 4,
       out_list = Terminated [''r/a.txt'', ''r/mnt'', ''r/self'', ''r/sub''],
       freed = [], out_errno = Errno 0\<rparr>)
   \<and> (\<exists>entries. opendir demo_os ''r'' = Inr entries
         \<and> (\<exists>dp \<in> set entries.
              ''r/sub'' = (if last ''r'' = DIR_SEPARATOR then ''r'' @ d_name dp
                   else ''r'' @ DIR_SEPARATOR # d_name dp)
            \<or> ''r/sub'' = (if last ''r'' = DIR_SEPARATOR then ''r'' @ d_name dp
                   else ''r'' @ DIR_SEPARATOR # d_name dp) @ [DIR_SEPARATOR]))
   \<and> file_list_create 3 chain_os 0 None (Some ''r'') 2 0 FL_SORT_NONE (Errno 0) =
       Some (Inr \<lparr>ret = 3, out_list = Terminated [''r/d/d/d'', ''r/d/d'', ''r/d''],
         freed = [], out_errno = Errno 0\<rparr>)
   \<and> file_list_create (nat 2 + 1) chain_os 0 None (Some ''r'') 2 0 FL_SORT_NONE (Errno 0)
       \<noteq> None
   \<and> file_list_create (nat 2 + 1 + 5) chain_os 0 None (Some ''r'') 2 0 FL_SORT_NONE (Errno 0) =
     file_list_create (nat 2 + 1) chain_os 0 None (Some ''r'') 2 0 FL_SORT_NONE (Errno 0)
   \<and> file_list_create (nat 2) chain_os 0 None (Some ''r'') 2 0 FL_SORT_NONE (Errno 0) = None
   \<and> file_list_create 9 chain_os 0 None (Some ''r'') (- 1) 0 FL_SORT_NONE (Errno 0) = None"
proof -
  have e: "file_list_create 1 demo_os 0 None (Some ''r'') 0 0 FL_SORT_DEFAULT (Errno 0) =
     Some (Inr \<lparr>ret = 4,
       out_list = Terminated [''r/a.txt'', ''r/mnt'', ''r/self'', ''r/sub''],
       freed = [], out_errno = Errno 0\<rparr>)"
    by (simp add: file_list_create_def alloc_def demo_os_def create_file_type_arr_def
      create_clean_dir_def remove_trailing.simps
      stat_stack_create_def stat_stack_push_def stat_stack_pop_def STAT_STACK_INITIAL_SIZE_def
      FL_INITIAL_LIST_SIZE_def readdir_loop_body_def is_current_or_parent_def
      get_file_type_def CREATE_CURRENT_PATH_def create_path_def DT_DIR_def DT_UNKNOWN_def
      DT_LNK_def FL_FOLLOW_LINKS_def FL_XDEV_def DIR_SEPARATOR_def add_file_name_def
      file_list_add_def FL_MAX_LIST_SIZE_def FL_DIR_SEP_def file_list_create_finish_def
      qsort_compar_default_def qsort_compar_def NUL_def strcmp_default_def uc_def tolower_def
      is_directory_loop_def traverse_next_directory_def)
  have c: "file_list_create 3 chain_os 0 None (Some ''r'') 2 0 FL_SORT_NONE (Errno 0) =
       Some (Inr \<lparr>ret = 3, out_list = Terminated [''r/d/d/d'', ''r/d/d'', ''r/d''],
         freed = [], out_errno = Errno 0\<rparr>)"
    by (simp add: file_list_create_def alloc_def chain_os_def create_file_type_arr_def
      create_clean_dir_def remove_trailing.simps
      stat_stack_create_def stat_stack_push_def stat_stack_pop_def STAT_STACK_INITIAL_SIZE_def
      FL_INITIAL_LIST_SIZE_def readdir_loop_body_def is_current_or_parent_def
      get_file_type_def CREATE_CURRENT_PATH_def create_path_def DT_DIR_def DT_UNKNOWN_def
      DT_LNK_def FL_FOLLOW_LINKS_def FL_XDEV_def DIR_SEPARATOR_def add_file_name_def
      file_list_add_def FL_MAX_LIST_SIZE_def FL_DIR_SEP_def file_list_create_finish_def
      numeral_3_eq_3 is_directory_loop_def traverse_next_directory_def)
  have s: "''r'' = remove_trailing (omit_separators False ''r'')"
    by (simp add: remove_trailing.simps DIR_SEPARATOR_def)
  note at_0 = depth_limits_recursion [where fuel = 1 and sys = demo_os and file_type = 0
      and regex_pattern = None and d = "''r''" and flags = 0 and sort_method = FL_SORT_DEFAULT
      and err = "Errno 0" and start_dir = "''r''" and p = "''r/sub''"
      and res = "\<lparr>ret = 4,
        out_list = Terminated [''r/a.txt'', ''r/mnt'', ''r/self'', ''r/sub''],
        freed = [], out_errno = Errno 0\<rparr>"
      and xs = "[''r/a.txt'', ''r/mnt'', ''r/self'', ''r/sub'']",
      THEN conjunct2, THEN conjunct1, THEN mp]
  have a: "\<exists>entries. opendir demo_os ''r'' = Inr entries
         \<and> (\<exists>dp \<in> set entries.
              ''r/sub'' = (if last ''r'' = DIR_SEPARATOR then ''r'' @ d_name dp
                   else ''r'' @ DIR_SEPARATOR # d_name dp)
            \<or> ''r/sub'' = (if last ''r'' = DIR_SEPARATOR then ''r'' @ d_name dp
                   else ''r'' @ DIR_SEPARATOR # d_name dp) @ [DIR_SEPARATOR])"
    by (rule at_0) (intro conjI, rule e, simp, rule s, simp)
  note at_2 = depth_limits_recursion [where sys = chain_os and file_type = 0
      and regex_pattern = None and dir = "Some ''r''" and flags = 0
      and sort_method = FL_SORT_NONE and err = "Errno 0" and depth = 2,
      THEN conjunct2, THEN conjunct2, THEN conjunct1, THEN mp]
  have t: "file_list_create (nat 2 + 1) chain_os 0 None (Some ''r'') 2 0 FL_SORT_NONE (Errno 0)
       \<noteq> None
   \<and> (\<forall>more. file_list_create (nat 2 + 1 + more) chain_os 0 None (Some ''r'') 2 0 FL_SORT_NONE
          (Errno 0) =
     file_list_create (nat 2 + 1) chain_os 0 None (Some ''r'') 2 0 FL_SORT_NONE (Errno 0))
   \<and> file_list_create (nat 2) chain_os 0 None (Some ''r'') 2 0 FL_SORT_NONE (Errno 0) = None"
    by (rule at_2) simp
  note below_0 = depth_limits_recursion [where fuel = 9 and file_type = 0 and flags = 0
      and sort_method = FL_SORT_NONE and err = "Errno 0" and depth = "- 1",
      THEN conjunct2, THEN conjunct2, THEN conjunct2, THEN mp]
  have u: "file_list_create 9 chain_os 0 None (Some ''r'') (- 1) 0 FL_SORT_NONE (Errno 0) = None"
    by (rule below_0) simp
  from t have t1: "file_list_create (nat 2 + 1) chain_os 0 None (Some ''r'') 2 0 FL_SORT_NONE
      (Errno 0) \<noteq> None"
    and t2: "file_list_create (nat 2 + 1 + 5) chain_os 0 None (Some ''r'') 2 0 FL_SORT_NONE
      (Errno 0) =
     file_list_create (nat 2 + 1) chain_os 0 None (Some ''r'') 2 0 FL_SORT_NONE (Errno 0)"
    and t3: "file_list_create (nat 2) chain_os 0 None (Some ''r'') 2 0 FL_SORT_NONE (Errno 0)
      = None"
    by blast+
  show ?thesis by (intro conjI) (rule e a c t1 t2 t3 u)+
qed

subsection \<open>A directory with more entries than the list can hold\<close>














subsection \<open>The capacity signal\<close>

















end
